theory Spec2Isabelle
  imports Complex_Main "HOL-Library.AList"
begin

section \<open>JavaScript values\<close>

text \<open>
  The program is \<^verbatim>\<open>src/main.ts\<close>, a class \<^verbatim>\<open>LoremIpsum\<close> that reads two JSON files
  (\<^verbatim>\<open>json/data.json\<close>, the template store, and \<^verbatim>\<open>json/ligatures.json\<close>) through
  \<^verbatim>\<open>(data as any)[name]\<close>.  Neither file is part of the sources, so both are parameters
  of the model.  A JSON value is a \<open>json\<close>; a JavaScript value that may be
  \<^verbatim>\<open>undefined\<close> is a \<open>json option\<close> (or \<open>string option\<close>) with \<open>None\<close> for
  \<^verbatim>\<open>undefined\<close>.  Strings are lists of code units; the code units of the source's own
  literals all lie below 256.  Numbers are real numbers.

  Every object of a JSON file inherits the methods of \<^verbatim>\<open>Object.prototype\<close>, so a lookup
  by name can also find a function; \<open>JFun\<close> is such a function.  It is never part of a
  store.
\<close>

datatype json =
    JNull
  | JBool bool
  | JNum real
  | JStr string
  | JArr "json list"
  | JObj "(string \<times> json) list"
  | JFun

type_synonym jsval = "json option"

text \<open>
  \<open>TypeError\<close> and \<open>RangeError\<close> are the exceptions the runtime throws.  \<open>Unmodelled\<close>
  marks a store whose shape is outside the model (a number where the code indexes an
  object, a non-string in a word pool, ...): JavaScript goes on there with coerced
  values, the model stops.  No theorem below concludes anything from \<open>Unmodelled\<close>.
\<close>

datatype error = TypeError | RangeError | Unmodelled

datatype jsnum = NaN | Fin real | PosInf | NegInf

datatype IpsumType = Paragraphs | Sentences | Words | Lists

record Settings =
  s_url :: string
  s_nbr :: jsnum
  s_type :: IpsumType

record PartialResult =
  p_type :: string
  p_text :: "string option"
  p_gender :: "string option"
  p_number :: "string option"

text \<open>The agreement preset \<^verbatim>\<open>{gender?, number?}\<close>; \<open>None\<close> is an absent key.\<close>

record preset =
  pre_gender :: "string option"
  pre_number :: "string option"

text \<open>
  The instance: the two JSON files, \<^verbatim>\<open>this.wordsArr\<close>, the sequence of results of
  \<^verbatim>\<open>Math.random()\<close> (each meant to lie in \<open>[0, 1)\<close>), the room on the call stack
  (see \<^verbatim>\<open>getRandomWord\<close> below), and three functions of the
  JavaScript library that are taken as they are: \<^verbatim>\<open>String.prototype.toUpperCase\<close>,
  \<^verbatim>\<open>subject.replace(new RegExp(pattern, "g"), replacement)\<close> and the conversion of a
  number to a string in a template literal.
\<close>

record env =
  data :: json
  ligatures :: "(string \<times> string) list"
  wordsArr :: "string list"
  random :: "nat \<Rightarrow> real"
  callStack :: nat
  toUpperCase :: "string \<Rightarrow> string"
  replaceRegExp :: "string \<Rightarrow> string \<Rightarrow> string \<Rightarrow> string"
  numberToString :: "jsnum \<Rightarrow> string"

text \<open>
  The mutable fields: \<^verbatim>\<open>usedWords\<close> (a \<^verbatim>\<open>Map\<close>, in insertion order),
  \<^verbatim>\<open>usedDictionary\<close> (a \<^verbatim>\<open>Set\<close>), and how many results of \<^verbatim>\<open>Math.random()\<close> have
  been consumed.
\<close>

record state =
  usedWords :: "(string \<times> nat list) list"
  usedDictionary :: "string set"
  pos :: nat

definition ebind :: "error + 'a \<Rightarrow> ('a \<Rightarrow> error + 'b) \<Rightarrow> error + 'b" where
  "ebind m f = (case m of Inl err \<Rightarrow> Inl err | Inr a \<Rightarrow> f a)"

text \<open>
  The names of the methods that every object inherits from \<^verbatim>\<open>Object.prototype\<close>.
\<close>

definition inherited_methods :: "string list" where
  "inherited_methods =
     [''constructor'', ''hasOwnProperty'', ''isPrototypeOf'', ''propertyIsEnumerable'',
      ''toLocaleString'', ''toString'', ''valueOf'', ''__defineGetter__'', ''__defineSetter__'',
      ''__lookupGetter__'', ''__lookupSetter__'']"

text \<open>
  \<^verbatim>\<open>v[k]\<close>: a \<^verbatim>\<open>TypeError\<close> on \<^verbatim>\<open>undefined\<close> and \<^verbatim>\<open>null\<close>.  On an object it is the
  own property of that name; when there is none, the lookup goes on in
  \<^verbatim>\<open>Object.prototype\<close> and finds a function under the name of an inherited method, and
  \<^verbatim>\<open>undefined\<close> under every other name.  The accessor \<^verbatim>\<open>__proto__\<close> is not modelled, nor
  are the properties of a function, nor is indexing into arrays, strings, numbers and
  booleans by name.
\<close>

fun getProp :: "jsval \<Rightarrow> string \<Rightarrow> error + jsval" where
  "getProp None k = Inl TypeError"
| "getProp (Some JNull) k = Inl TypeError"
| "getProp (Some (JObj kvs)) k =
     (if k = ''__proto__'' then Inl Unmodelled
      else case map_of kvs k of
             Some v \<Rightarrow> Inr (Some v)
           | None \<Rightarrow> Inr (if k \<in> set inherited_methods then Some JFun else None))"
| "getProp (Some v) k = Inl Unmodelled"

fun truthy :: "jsval \<Rightarrow> bool" where
  "truthy None = False"
| "truthy (Some JNull) = False"
| "truthy (Some (JBool b)) = b"
| "truthy (Some (JNum r)) = (r \<noteq> 0)"
| "truthy (Some (JStr s)) = (s \<noteq> [])"
| "truthy (Some (JArr vs)) = True"
| "truthy (Some (JObj kvs)) = True"
| "truthy (Some JFun) = True"

fun strings_of :: "json list \<Rightarrow> string list option" where
  "strings_of [] = Some []"
| "strings_of (JStr s # vs) = map_option ((#) s) (strings_of vs)"
| "strings_of (v # vs) = None"

text \<open>An array of strings whose \<^verbatim>\<open>length\<close> is read: \<^verbatim>\<open>undefined.length\<close> throws.\<close>

fun string_array :: "jsval \<Rightarrow> error + string list" where
  "string_array None = Inl TypeError"
| "string_array (Some JNull) = Inl TypeError"
| "string_array (Some (JArr vs)) =
     (case strings_of vs of None \<Rightarrow> Inl Unmodelled | Some ws \<Rightarrow> Inr ws)"
| "string_array (Some v) = Inl Unmodelled"

text \<open>
  An array of strings on which \<^verbatim>\<open>.map\<close> is called or that \<^verbatim>\<open>for ... of\<close> iterates:
  everything that is not an array throws (a string, which \<^verbatim>\<open>for ... of\<close> would
  iterate, is not modelled).
\<close>

fun string_array_map :: "jsval \<Rightarrow> error + string list" where
  "string_array_map (Some (JArr vs)) =
     (case strings_of vs of None \<Rightarrow> Inl Unmodelled | Some ws \<Rightarrow> Inr ws)"
| "string_array_map (Some (JStr s)) = Inl Unmodelled"
| "string_array_map v = Inl TypeError"

text \<open>\<^verbatim>\<open>Object.keys\<close>; keys that are array indices (which JavaScript lists first) are not modelled.\<close>

fun Object_keys :: "jsval \<Rightarrow> error + string list" where
  "Object_keys None = Inl TypeError"
| "Object_keys (Some JNull) = Inl TypeError"
| "Object_keys (Some (JObj kvs)) = Inr (map fst kvs)"
| "Object_keys (Some v) = Inl Unmodelled"

text \<open>A string or \<^verbatim>\<open>undefined\<close> in a string concatenation or as a property key.\<close>

definition js_string :: "string option \<Rightarrow> string" where
  "js_string v = (case v of None \<Rightarrow> ''undefined'' | Some s \<Rightarrow> s)"

text \<open>\<^verbatim>\<open>xs[i]\<close> on an array: \<^verbatim>\<open>undefined\<close> out of range.\<close>

definition nth_opt :: "'a list \<Rightarrow> nat \<Rightarrow> 'a option" where
  "nth_opt xs i = (if i < length xs then Some (xs ! i) else None)"

text \<open>\<^verbatim>\<open>parts.join(" ")\<close>: \<^verbatim>\<open>undefined\<close> elements are joined as empty strings.\<close>

fun join_sp :: "string list \<Rightarrow> string" where
  "join_sp [] = []"
| "join_sp [x] = x"
| "join_sp (x # y # ys) = x @ '' '' @ join_sp (y # ys)"

definition join_parts :: "string option list \<Rightarrow> string" where
  "join_parts parts = join_sp (map (\<lambda>p. case p of None \<Rightarrow> [] | Some s \<Rightarrow> s) parts)"

text \<open>\<^verbatim>\<open>.filter(Boolean)\<close> on strings and \<^verbatim>\<open>undefined\<close>.\<close>

definition filter_Boolean :: "string option list \<Rightarrow> string list" where
  "filter_Boolean xs = concat (map (\<lambda>p. case p of None \<Rightarrow> [] | Some s \<Rightarrow> if s = [] then [] else [s]) xs)"

text \<open>\<^verbatim>\<open>item.split(" ")\<close>.\<close>

fun split_on :: "char \<Rightarrow> string \<Rightarrow> string list" where
  "split_on c [] = [[]]"
| "split_on c (x # xs) =
     (if x = c then [] # split_on c xs
      else (case split_on c xs of [] \<Rightarrow> [[x]] | w # ws \<Rightarrow> (x # w) # ws))"

section \<open>Random draws\<close>

definition Math_random :: "env \<Rightarrow> state \<Rightarrow> real \<times> state" where
  "Math_random e st = (random e (pos st), st\<lparr>pos := Suc (pos st)\<rparr>)"

text \<open>\<^verbatim>\<open>Math.floor(Math.random() * n)\<close> for the number \<open>u\<close> drawn.\<close>

definition floor_index :: "real \<Rightarrow> nat \<Rightarrow> nat" where
  "floor_index u n = nat \<lfloor>u * real n\<rfloor>"

definition randomFromArray :: "env \<Rightarrow> 'a list \<Rightarrow> state \<Rightarrow> 'a option \<times> state" where
  "randomFromArray e arr st =
     (let (u, st1) = Math_random e st in (nth_opt arr (floor_index u (length arr)), st1))"

text \<open>\<^verbatim>\<open>random(min, max)\<close>.\<close>

definition random_between :: "env \<Rightarrow> nat \<Rightarrow> nat \<Rightarrow> state \<Rightarrow> nat \<times> state" where
  "random_between e lo hi st =
     (let (u, st1) = Math_random e st in (floor_index u (hi - lo + 1) + lo, st1))"

section \<open>Repeat avoidance\<close>

text \<open>
  \<^verbatim>\<open>getRandomWord\<close> calls itself until the index drawn is not in the category's memory.
  Nothing in the code bounds the number of calls; the call stack does.  Every self-call
  takes a frame (an engine that removes the frame of a call in tail position is not
  modelled), and the call for which the stack has no room throws a \<^verbatim>\<open>RangeError\<close>.
  \<open>callStack e\<close> is the number of nested self-calls for which there is room when
  \<^verbatim>\<open>generateSentence\<close> calls \<^verbatim>\<open>getRandomWord\<close>, and \<open>depth\<close> the number of self-calls
  made so far.  The model is a partial function, with \<open>None\<close> for a call that never
  returns; that every call returns is proved below.
\<close>

definition pool_of :: "json \<Rightarrow> string \<Rightarrow> error + string list" where
  "pool_of d ty = ebind (getProp (Some d) ty) string_array"

definition used_of :: "state \<Rightarrow> string \<Rightarrow> nat list" where
  "used_of st ty = (case map_of (usedWords st) ty of None \<Rightarrow> [] | Some u \<Rightarrow> u)"

text \<open>\<^verbatim>\<open>used.push(index); if (used.length > 4) used.shift();\<close>\<close>

definition push_used :: "nat list \<Rightarrow> nat \<Rightarrow> nat list" where
  "push_used used index = (if length (used @ [index]) > 4 then tl (used @ [index]) else used @ [index])"

partial_function (option) getRandomWord_from ::
  "env \<Rightarrow> string \<Rightarrow> nat \<Rightarrow> state \<Rightarrow> (error + (string option \<times> state)) option" where
  "getRandomWord_from e ty depth st =
    (case pool_of (data e) ty of
       Inl err \<Rightarrow> Some (Inl err)
     | Inr list \<Rightarrow>
        (let index = floor_index (random e (pos st)) (length list);
             st1 = st\<lparr>pos := Suc (pos st)\<rparr>;
             used = used_of st1 ty
         in if index \<notin> set used
            then Some (Inr (nth_opt list index,
                   st1\<lparr>usedWords := AList.update ty (push_used used index) (usedWords st1)\<rparr>))
            else if callStack e \<le> depth then Some (Inl RangeError)
            else getRandomWord_from e ty (Suc depth) st1))"

definition getRandomWord ::
  "env \<Rightarrow> string \<Rightarrow> state \<Rightarrow> (error + (string option \<times> state)) option" where
  "getRandomWord e ty st = getRandomWord_from e ty 0 st"

definition getRandomNoRepeat ::
  "env \<Rightarrow> string list \<Rightarrow> state \<Rightarrow> error + (string option \<times> state)" where
  "getRandomNoRepeat e arr st =
    (let (word, st1) = randomFromArray e arr st in
     case word of
       None \<Rightarrow> Inl TypeError
     | Some w \<Rightarrow>
         if w \<notin> usedDictionary st1 \<and> length w > 3
         then Inr (Some w, st1\<lparr>usedDictionary := insert w (usedDictionary st1)\<rparr>)
         else Inr (randomFromArray e arr st1))"

section \<open>Sections\<close>

text \<open>
  \<^verbatim>\<open>obj[category].required >= Math.random()\<close>: a comparison with \<^verbatim>\<open>undefined\<close> is
  false, \<^verbatim>\<open>null\<close> counts as 0 and a boolean as 0 or 1.
\<close>

fun required_ge :: "jsval \<Rightarrow> real \<Rightarrow> error + bool" where
  "required_ge None u = Inr False"
| "required_ge (Some (JNum r)) u = Inr (r \<ge> u)"
| "required_ge (Some JNull) u = Inr (0 \<ge> u)"
| "required_ge (Some (JBool b)) u = Inr ((if b then 1 else 0) \<ge> u)"
| "required_ge (Some v) u = Inl Unmodelled"

text \<open>\<^verbatim>\<open>obj[category].default ?? ""\<close>.\<close>

fun default_or_empty :: "jsval \<Rightarrow> error + string" where
  "default_or_empty None = Inr []"
| "default_or_empty (Some JNull) = Inr []"
| "default_or_empty (Some (JStr s)) = Inr s"
| "default_or_empty (Some v) = Inl Unmodelled"

text \<open>The callback of \<^verbatim>\<open>typeObj.structure.map\<close> in \<^verbatim>\<open>getPartial\<close>, run over the structure.\<close>

fun partial_texts ::
  "env \<Rightarrow> jsval \<Rightarrow> string list \<Rightarrow> state \<Rightarrow> error + (string option list \<times> state)" where
  "partial_texts e obj [] st = Inr ([], st)"
| "partial_texts e obj (category # rest) st =
    (case getProp obj category of Inl err \<Rightarrow> Inl err | Inr c \<Rightarrow>
     case getProp c ''required'' of Inl err \<Rightarrow> Inl err | Inr req \<Rightarrow>
     let (u, st1) = Math_random e st in
     case required_ge req u of Inl err \<Rightarrow> Inl err | Inr ge \<Rightarrow>
     case (if ge
           then ebind (ebind (getProp c ''values'') string_array) (\<lambda>arr. getRandomNoRepeat e arr st1)
           else ebind (ebind (getProp c ''default'') default_or_empty) (\<lambda>d. Inr (Some d, st1)))
     of Inl err \<Rightarrow> Inl err | Inr (x, st2) \<Rightarrow>
     case partial_texts e obj rest st2 of Inl err \<Rightarrow> Inl err
     | Inr (xs, st3) \<Rightarrow> Inr (x # xs, st3))"

text \<open>\<^verbatim>\<open>preset.gender ?? (Math.random() > 0.5 ? "m" : "f")\<close>\<close>

definition pick_gender :: "env \<Rightarrow> preset \<Rightarrow> state \<Rightarrow> string \<times> state" where
  "pick_gender e pre st =
    (case pre_gender pre of
       Some g \<Rightarrow> (g, st)
     | None \<Rightarrow> (let (u, st1) = Math_random e st in (if u > 1 / 2 then ''m'' else ''f'', st1)))"

text \<open>\<^verbatim>\<open>preset.number ?? numbers[Math.floor(Math.random() * numbers.length)]\<close>\<close>

definition pick_number :: "env \<Rightarrow> preset \<Rightarrow> string list \<Rightarrow> state \<Rightarrow> string option \<times> state" where
  "pick_number e pre numbers st =
    (case pre_number pre of
       Some n \<Rightarrow> (Some n, st)
     | None \<Rightarrow> randomFromArray e numbers st)"

definition getPartial :: "env \<Rightarrow> string \<Rightarrow> preset \<Rightarrow> state \<Rightarrow> error + (PartialResult \<times> state)" where
  "getPartial e ty pre st =
    (let (gender, st1) = pick_gender e pre st in
     ebind (getProp (Some (data e)) ty) (\<lambda>typeObj.
     ebind (getProp typeObj gender) (\<lambda>tg.
     ebind (Object_keys tg) (\<lambda>numbers.
     let (number, st2) = pick_number e pre numbers st1 in
     ebind (getProp tg (js_string number)) (\<lambda>obj.
     ebind (ebind (getProp typeObj ''structure'') string_array_map) (\<lambda>cats.
     ebind (partial_texts e obj cats st2) (\<lambda>(texts, st3).
       Inr (\<lparr>p_type = ty, p_text = Some (join_sp (filter_Boolean texts)),
              p_gender = Some gender, p_number = number\<rparr>, st3))))))))"

text \<open>
  The loop of \<^verbatim>\<open>mergePartials\<close> over \<^verbatim>\<open>arr[1], arr[2], ...\<close>.
  \<^verbatim>\<open>base.text += sep + arr[i].text\<close> adds \<^verbatim>\<open>undefined + undefined = NaN\<close> when both the
  separator and the text are undefined; with an undefined \<^verbatim>\<open>base.text\<close> on top the
  result is a number, which is not modelled.
\<close>

fun merge_loop ::
  "env \<Rightarrow> string list \<Rightarrow> PartialResult \<Rightarrow> PartialResult list \<Rightarrow> state
     \<Rightarrow> error + (PartialResult \<times> state)" where
  "merge_loop e sep base [] st = Inr (base, st)"
| "merge_loop e sep base (a # rest) st =
    (let base1 = (if p_gender a \<noteq> p_gender base then base\<lparr>p_gender := Some ''m''\<rparr> else base);
         (s, st1) = randomFromArray e sep st
     in if p_text base1 = None \<and> s = None \<and> p_text a = None then Inl Unmodelled
        else merge_loop e sep
               (base1\<lparr>p_text := Some (js_string (p_text base1) @
                   (if s = None \<and> p_text a = None then ''NaN''
                    else js_string s @ js_string (p_text a)))\<rparr>)
               rest st1)"

text \<open>
  \<^verbatim>\<open>const base = { ...arr[0] }\<close> is the empty object for an empty array; its
  \<^verbatim>\<open>type\<close> is assigned before it is returned.  \<^verbatim>\<open>typeObj.sep\<close> is read only inside the
  loop, so a missing separator pool throws only when there is a second partial.
\<close>

definition mergePartials ::
  "env \<Rightarrow> PartialResult list \<Rightarrow> string \<Rightarrow> jsval \<Rightarrow> state \<Rightarrow> error + (PartialResult \<times> state)" where
  "mergePartials e arr ty typeObj st =
    (let base = (case arr of
                   [] \<Rightarrow> \<lparr>p_type = ty, p_text = None, p_gender = None, p_number = None\<rparr>
                 | a # rest \<Rightarrow> a)
     in ebind (if length arr \<le> 1 then Inr []
               else ebind (getProp typeObj ''sep'') string_array) (\<lambda>sep.
        ebind (merge_loop e sep base (tl arr) st) (\<lambda>(b, st1).
          Inr (b\<lparr>p_type := ty, p_number := Some ''plural''\<rparr>, st1))))"

text \<open>\<^verbatim>\<open>selected.map((t) => this.getPartial(t, preset))\<close>\<close>

fun map_getPartial ::
  "env \<Rightarrow> string list \<Rightarrow> preset \<Rightarrow> state \<Rightarrow> error + (PartialResult list \<times> state)" where
  "map_getPartial e [] pre st = Inr ([], st)"
| "map_getPartial e (t # ts) pre st =
    (case getPartial e t pre st of Inl err \<Rightarrow> Inl err | Inr (p, st1) \<Rightarrow>
     case map_getPartial e ts pre st1 of Inl err \<Rightarrow> Inl err
     | Inr (ps, st2) \<Rightarrow> Inr (p # ps, st2))"

text \<open>
  The option picked from \<^verbatim>\<open>typeObj.options\<close>: a string is one sub-type, an array of
  strings a compound; \<^verbatim>\<open>selected.map\<close> throws on everything else.
\<close>

fun getSection_selected ::
  "env \<Rightarrow> string \<Rightarrow> jsval \<Rightarrow> preset \<Rightarrow> jsval \<Rightarrow> state \<Rightarrow> error + (PartialResult \<times> state)" where
  "getSection_selected e originalType typeObj pre (Some (JStr s)) st = getPartial e s pre st"
| "getSection_selected e originalType typeObj pre (Some (JArr ts)) st =
    (case strings_of ts of
       None \<Rightarrow> Inl Unmodelled
     | Some names \<Rightarrow>
         ebind (map_getPartial e names pre st) (\<lambda>(partials, st1).
           mergePartials e partials originalType typeObj st1))"
| "getSection_selected e originalType typeObj pre v st = Inl TypeError"

definition getSection :: "env \<Rightarrow> string \<Rightarrow> preset \<Rightarrow> state \<Rightarrow> error + (PartialResult \<times> state)" where
  "getSection e originalType pre st =
    ebind (getProp (Some (data e)) originalType) (\<lambda>typeObj.
    ebind (getProp typeObj ''options'') (\<lambda>options.
      if truthy options
      then (case options of
              Some (JArr os) \<Rightarrow>
                (let (selected, st1) = randomFromArray e os st
                 in getSection_selected e originalType typeObj pre selected st1)
            | v \<Rightarrow> Inl Unmodelled)
      else getPartial e originalType pre st))"

section \<open>Sentences, paragraphs and words\<close>

definition capitalize :: "env \<Rightarrow> string \<Rightarrow> string" where
  "capitalize e str = toUpperCase e (take 1 str) @ drop 1 str"

text \<open>
  The loop of \<^verbatim>\<open>generateSentence\<close> over the tokens of the structure, with the parts
  pushed so far and the protagonist.  Only a token that starts with \<^verbatim>\<open>?\<close> is a section;
  an optional token is looked up after its \<^verbatim>\<open>*\<close> is cut off.
\<close>

fun process_tokens ::
  "env \<Rightarrow> string list \<Rightarrow> string option list \<Rightarrow> preset \<Rightarrow> state
     \<Rightarrow> (error + (string option list \<times> state)) option" where
  "process_tokens e [] parts protagonist st = Some (Inr (parts, st))"
| "process_tokens e (token # rest) parts protagonist st =
    (if take 1 token = ''*'' \<and> fst (Math_random e st) \<ge> 1 / 6
     then process_tokens e rest parts protagonist (snd (Math_random e st))
     else if take 1 token = ''?''
     then (case getSection e (drop 1 token) protagonist st of
             Inl err \<Rightarrow> Some (Inl err)
           | Inr (section, st1) \<Rightarrow>
               process_tokens e rest (parts @ [p_text section])
                 (if drop 1 token = ''protagonists''
                  then \<lparr>pre_gender = p_gender section, pre_number = p_number section\<rparr>
                  else protagonist)
                 st1)
     else (let tok = (if take 1 token = ''*'' then drop 1 token else token);
               st0 = (if take 1 token = ''*'' then snd (Math_random e st) else st)
           in case getProp (Some (data e)) tok of
                Inl err \<Rightarrow> Some (Inl err)
              | Inr category \<Rightarrow>
                  if truthy category
                  then (case getRandomWord e tok st0 of
                          None \<Rightarrow> None
                        | Some (Inl err) \<Rightarrow> Some (Inl err)
                        | Some (Inr (w, st1)) \<Rightarrow> process_tokens e rest (parts @ [w]) protagonist st1)
                  else process_tokens e rest (parts @ [Some tok]) protagonist st0))"

text \<open>The structure picked by \<^verbatim>\<open>generateSentence\<close>; iterating \<^verbatim>\<open>undefined\<close> throws.\<close>

definition pick_structure :: "env \<Rightarrow> state \<Rightarrow> error + (string list \<times> state)" where
  "pick_structure e st =
    ebind (getProp (Some (data e)) ''structures'') (\<lambda>ss.
      case ss of
        None \<Rightarrow> Inl TypeError
      | Some JNull \<Rightarrow> Inl TypeError
      | Some (JArr structures) \<Rightarrow>
          (let (structure, st1) = randomFromArray e structures st
           in ebind (string_array_map structure) (\<lambda>tokens. Inr (tokens, st1)))
      | Some v \<Rightarrow> Inl Unmodelled)"

definition generateSentence :: "env \<Rightarrow> state \<Rightarrow> (error + (string \<times> state)) option" where
  "generateSentence e st =
    (case pick_structure e st of
       Inl err \<Rightarrow> Some (Inl err)
     | Inr (structure, st1) \<Rightarrow>
        (case process_tokens e structure [] \<lparr>pre_gender = Some [], pre_number = Some []\<rparr> st1 of
           None \<Rightarrow> None
         | Some (Inl err) \<Rightarrow> Some (Inl err)
         | Some (Inr (parts, st2)) \<Rightarrow> Some (Inr (capitalize e (join_parts parts), st2))))"

text \<open>\<^verbatim>\<open>Array.from({ length: n }, () => f())\<close>: \<open>n\<close> calls, in order.\<close>

fun Array_from ::
  "nat \<Rightarrow> (state \<Rightarrow> (error + ('a \<times> state)) option) \<Rightarrow> state \<Rightarrow> (error + ('a list \<times> state)) option" where
  "Array_from 0 f st = Some (Inr ([], st))"
| "Array_from (Suc n) f st =
    (case f st of
       None \<Rightarrow> None
     | Some (Inl err) \<Rightarrow> Some (Inl err)
     | Some (Inr (x, st1)) \<Rightarrow>
        (case Array_from n f st1 of
           None \<Rightarrow> None
         | Some (Inl err) \<Rightarrow> Some (Inl err)
         | Some (Inr (xs, st2)) \<Rightarrow> Some (Inr (x # xs, st2))))"

definition generateParagraph :: "env \<Rightarrow> state \<Rightarrow> (error + (string \<times> state)) option" where
  "generateParagraph e st =
    (let (sentencesNbr, st1) = random_between e 2 8 st in
     case Array_from sentencesNbr (generateSentence e) st1 of
       None \<Rightarrow> None
     | Some (Inl err) \<Rightarrow> Some (Inl err)
     | Some (Inr (sentences, st2)) \<Rightarrow> Some (Inr (''<p>'' @ join_sp sentences @ ''</p>'', st2)))"

text \<open>\<^verbatim>\<open>item.split(" ")\<close> on an undefined item throws.\<close>

definition randomWordFromPool :: "env \<Rightarrow> state \<Rightarrow> error + (string option \<times> state)" where
  "randomWordFromPool e st =
    (let (item, st1) = randomFromArray e (wordsArr e) st in
     case item of
       None \<Rightarrow> Inl TypeError
     | Some it \<Rightarrow> Inr (randomFromArray e (split_on CHR '' '' it) st1))"

fun getLoremIpsum :: "env \<Rightarrow> IpsumType \<Rightarrow> state \<Rightarrow> (error + (string \<times> state)) option" where
  "getLoremIpsum e Sentences st =
    (case generateSentence e st of
       None \<Rightarrow> None
     | Some (Inl err) \<Rightarrow> Some (Inl err)
     | Some (Inr (s, st1)) \<Rightarrow> Some (Inr (s @ '' '', st1)))"
| "getLoremIpsum e Words st =
    (case randomWordFromPool e st of
       Inl err \<Rightarrow> Some (Inl err)
     | Inr (w, st1) \<Rightarrow> Some (Inr (js_string w @ '' '', st1)))"
| "getLoremIpsum e Lists st =
    (case generateSentence e st of
       None \<Rightarrow> None
     | Some (Inl err) \<Rightarrow> Some (Inl err)
     | Some (Inr (s, st1)) \<Rightarrow> Some (Inr (''<li>'' @ s @ ''</li>'', st1)))"
| "getLoremIpsum e Paragraphs st = generateParagraph e st"

section \<open>The generation run\<close>

text \<open>
  \<^verbatim>\<open>ligatures.reduce((acc, [pattern, replacement]) => acc.replace(new RegExp(pattern, "g"), replacement), str)\<close>
\<close>

definition fixLigatures :: "env \<Rightarrow> string \<Rightarrow> string" where
  "fixLigatures e str =
     foldl (\<lambda>acc (pattern, replacement). replaceRegExp e pattern replacement acc) str (ligatures e)"

text \<open>
  The length \<^verbatim>\<open>Array.from({ length: nbr }, ...)\<close> reads: \<^verbatim>\<open>ToLength\<close> cuts the fraction
  off and takes everything below 1 (and \<^verbatim>\<open>NaN\<close>) to 0; an array of \<open>2\<^sup>3\<^sup>2\<close> elements
  or more cannot be made.
\<close>

fun array_length :: "jsnum \<Rightarrow> error + nat" where
  "array_length NaN = Inr 0"
| "array_length NegInf = Inr 0"
| "array_length PosInf = Inl RangeError"
| "array_length (Fin r) =
     (if r < 1 then Inr 0
      else if \<lfloor>r\<rfloor> > 2 ^ 32 - 1 then Inl RangeError
      else Inr (nat \<lfloor>r\<rfloor>))"

text \<open>
  The first half of \<^verbatim>\<open>setup\<close>: both memories are cleared and the units are generated,
  one call of \<^verbatim>\<open>getLoremIpsum\<close> each.
\<close>

definition generate_units ::
  "env \<Rightarrow> Settings \<Rightarrow> state \<Rightarrow> (error + (string list \<times> state)) option" where
  "generate_units e s st =
    (case array_length (s_nbr s) of
       Inl err \<Rightarrow> Some (Inl err)
     | Inr n \<Rightarrow> Array_from n (getLoremIpsum e (s_type s)) (st\<lparr>usedDictionary := {}, usedWords := []\<rparr>))"

text \<open>Numbers below \<open>10\<^sup>2\<^sup>1\<close> that are natural numbers are converted to their decimal digits.\<close>

fun decimal :: "nat \<Rightarrow> string" where
  "decimal n = (if n < 10 then [''0123456789'' ! n]
                else decimal (n div 10) @ [''0123456789'' ! (n mod 10)])"

text \<open>The class \<^verbatim>\<open>\s\<close> among the code units below 256.\<close>

definition is_ws :: "char \<Rightarrow> bool" where
  "is_ws c = (of_char c \<in> {9, 10, 11, 12, 13, 32, 160 :: nat})"

text \<open>
  \<^verbatim>\<open>text.split(/\s+/)\<close>: the pieces between the runs of white space, with an empty piece
  before a leading and after a trailing run.  \<open>cur\<close> is the piece being read, reversed;
  \<open>in_ws\<close> says that the last code unit was white space.
\<close>

fun split_ws_acc :: "string \<Rightarrow> bool \<Rightarrow> string \<Rightarrow> string list" where
  "split_ws_acc cur in_ws [] = [rev cur]"
| "split_ws_acc cur in_ws (c # cs) =
     (if is_ws c
      then (if in_ws then split_ws_acc [] True cs else rev cur # split_ws_acc [] True cs)
      else split_ws_acc (c # cur) False cs)"

definition split_ws :: "string \<Rightarrow> string list" where
  "split_ws txt = split_ws_acc [] False txt"

text \<open>The class \<^verbatim>\<open>[A-Za-z]\<close>.\<close>

definition is_AZaz :: "char \<Rightarrow> bool" where
  "is_AZaz c = ((65 \<le> (of_char c :: nat) \<and> (of_char c :: nat) \<le> 90) \<or>
                (97 \<le> (of_char c :: nat) \<and> (of_char c :: nat) \<le> 122))"

definition resume_translation :: "env \<Rightarrow> Settings \<Rightarrow> string" where
  "resume_translation e s =
    (case s_type s of
       Paragraphs \<Rightarrow> numberToString e (s_nbr s) @ '' paragraphes''
     | Sentences \<Rightarrow> numberToString e (s_nbr s) @ '' phrases''
     | Words \<Rightarrow> numberToString e (s_nbr s) @ '' mots''
     | Lists \<Rightarrow> ''Une liste '' @ [CHR 0xE0] @ '' '' @ numberToString e (s_nbr s) @ '' points'')"

text \<open>The word count that \<^verbatim>\<open>updateResume\<close> adds in every mode but \<^verbatim>\<open>Words\<close>.\<close>

definition resume_words :: "Settings \<Rightarrow> string \<Rightarrow> string" where
  "resume_words s txt =
    (if s_type s \<noteq> Words then '', '' @ decimal (length (split_ws txt)) @ '' mots'' else [])"

definition resume_chars :: "Settings \<Rightarrow> string \<Rightarrow> string" where
  "resume_chars s txt =
     '', '' @ decimal (length (filter is_AZaz txt)) @ '' caract'' @ [CHR 0xE8] @ ''res de ''
     @ [CHR 0x0A] @ ''      <a href='' @ [CHR 0x22] @ s_url s @ [CHR 0x22]
     @ ''>Lee<em>psum</em></a> g'' @ [CHR 0xE9] @ ''n'' @ [CHR 0xE9] @ ''r'' @ [CHR 0xE9]"

text \<open>\<^verbatim>\<open>updateResume\<close>: what it writes to \<^verbatim>\<open>this.dom.footer.innerHTML\<close>.\<close>

definition updateResume :: "env \<Rightarrow> Settings \<Rightarrow> string \<Rightarrow> string" where
  "updateResume e s txt =
     ''<p><strong>'' @ resume_translation e s @ resume_words s txt @ resume_chars s txt
     @ ''</strong></p>''"

text \<open>
  \<^verbatim>\<open>setup\<close>: the pair of what is written to the footer and to the content element.
\<close>

definition run_setup ::
  "env \<Rightarrow> Settings \<Rightarrow> state \<Rightarrow> (error + ((string \<times> string) \<times> state)) option" where
  "run_setup e s st =
    (case generate_units e s st of
       None \<Rightarrow> None
     | Some (Inl err) \<Rightarrow> Some (Inl err)
     | Some (Inr (units, st1)) \<Rightarrow>
        (let fixed = fixLigatures e (concat units)
         in Some (Inr ((updateResume e s fixed,
                        ''<article class='' @ [CHR 0x22] @ ''article'' @ [CHR 0x22] @ ''>''
                        @ fixed @ ''</article>''), st1))))"

section \<open>The constructor and the form\<close>

text \<open>\<^verbatim>\<open>Number(x) || 1\<close>, on the number \<^verbatim>\<open>Number(x)\<close>: only 0 and \<^verbatim>\<open>NaN\<close> are falsy.\<close>

definition or_1 :: "jsnum \<Rightarrow> jsnum" where
  "or_1 v = (if v = NaN \<or> v = Fin 0 then Fin 1 else v)"

definition constructor_settings :: "jsnum \<Rightarrow> Settings" where
  "constructor_settings v =
     \<lparr>s_url = ''http://sidlipsum.smnarnold.com'', s_nbr = or_1 v, s_type = Paragraphs\<rparr>"

text \<open>The two \<^verbatim>\<open>change\<close> listeners of \<^verbatim>\<open>bindEvents\<close>.\<close>

definition on_nbr_change :: "jsnum \<Rightarrow> Settings \<Rightarrow> Settings" where
  "on_nbr_change v s = s\<lparr>s_nbr := or_1 v\<rparr>"

definition on_type_change :: "IpsumType \<Rightarrow> Settings \<Rightarrow> Settings" where
  "on_type_change t s = s\<lparr>s_type := t\<rparr>"

fun getPath :: "jsval \<Rightarrow> string list \<Rightarrow> error + jsval" where
  "getPath v [] = Inr v"
| "getPath v (k # ks) = ebind (getProp v k) (\<lambda>w. getPath w ks)"

fun spread_paths :: "json \<Rightarrow> string list list \<Rightarrow> error + string list" where
  "spread_paths d [] = Inr []"
| "spread_paths d (p # ps) =
     ebind (ebind (getPath (Some d) p) string_array_map) (\<lambda>ws.
     ebind (spread_paths d ps) (\<lambda>rest. Inr (ws @ rest)))"

text \<open>\<^verbatim>\<open>this.wordsArr\<close> as the constructor builds it.\<close>

definition constructor_wordsArr :: "json \<Rightarrow> error + string list" where
  "constructor_wordsArr d = spread_paths d
     [[''times'', ''m'', ''single'', ''item'', ''values''],
      [''places'', ''m'', ''single'', ''item'', ''values''],
      [''places'', ''f'', ''single'', ''item'', ''values''],
      [''persons'', ''m'', ''single'', ''item'', ''values''],
      [''persons'', ''f'', ''single'', ''item'', ''values''],
      [''roles'', ''m'', ''single'', ''item'', ''values''],
      [''roles'', ''f'', ''single'', ''item'', ''values''],
      [''roles'', ''m'', ''single'', ''specialisation'', ''values''],
      [''roles'', ''f'', ''single'', ''specialisation'', ''values'']]"

section \<open>Runs\<close>

text \<open>
  Three operations change the state: \<^verbatim>\<open>Math.random()\<close>, \<^verbatim>\<open>getRandomWord\<close> and
  \<^verbatim>\<open>getRandomNoRepeat\<close>; everything else in a generation run is a sequence of them.
  \<open>run_steps e st st'\<close>: the state \<open>st'\<close> comes after \<open>st\<close> in a run (no \<^verbatim>\<open>clear()\<close>
  in between).
\<close>

inductive run_steps :: "env \<Rightarrow> state \<Rightarrow> state \<Rightarrow> bool" for e :: env and st :: state where
  here: "run_steps e st st"
| draw: "run_steps e st st1 \<Longrightarrow> run_steps e st (snd (Math_random e st1))"
| word: "run_steps e st st1 \<Longrightarrow> getRandomWord e ty st1 = Some (Inr (w, st2))
          \<Longrightarrow> run_steps e st st2"
| val: "run_steps e st st1 \<Longrightarrow> getRandomNoRepeat e arr st1 = Inr (v, st2)
          \<Longrightarrow> run_steps e st st2"

text \<open>
  The same, with the history \<open>h\<close> of the category \<open>ty\<close>: the indices its draws accepted,
  oldest first.  The index a draw accepted is the one it pushed last on the
  category's memory.
\<close>

inductive run_hist :: "env \<Rightarrow> string \<Rightarrow> state \<Rightarrow> nat list \<Rightarrow> state \<Rightarrow> bool"
  for e :: env and ty :: string and st :: state where
  start: "run_hist e ty st [] st"
| draw: "run_hist e ty st h st1 \<Longrightarrow> run_hist e ty st h (snd (Math_random e st1))"
| val: "run_hist e ty st h st1 \<Longrightarrow> getRandomNoRepeat e arr st1 = Inr (v, st2)
          \<Longrightarrow> run_hist e ty st h st2"
| other: "run_hist e ty st h st1 \<Longrightarrow> getRandomWord e ty' st1 = Some (Inr (w, st2))
          \<Longrightarrow> ty' \<noteq> ty \<Longrightarrow> run_hist e ty st h st2"
| same: "run_hist e ty st h st1 \<Longrightarrow> getRandomWord e ty st1 = Some (Inr (w, st2))
          \<Longrightarrow> run_hist e ty st (h @ [last (used_of st2 ty)]) st2"

section \<open>Stores on which every sentence is produced\<close>

text \<open>
  The random numbers keep giving fresh indices for a pool of \<open>n\<close> entries: wherever the
  sequence is read from and whichever indices, at most 4, are remembered, one of the
  random numbers for which the call stack has room gives an index that is not
  remembered.  (Then \<open>n\<close> is more than 4 when the indices lie below \<open>n\<close>.)
\<close>

definition fresh_in_reach :: "env \<Rightarrow> nat \<Rightarrow> bool" where
  "fresh_in_reach e n =
     (\<forall>p used. length used \<le> 4 \<longrightarrow> (\<exists>k\<le>callStack e. floor_index (random e (p + k)) n \<notin> set used))"

text \<open>
  A token that is plain or optional, not a section, and that names either nothing truthy
  in the store, so that it is a literal word, or a pool of strings for which the random
  numbers keep giving fresh indices.
\<close>

definition word_token :: "env \<Rightarrow> string \<Rightarrow> bool" where
  "word_token e token =
     (take 1 token \<noteq> ''?'' \<and>
      (\<exists>category.
         getProp (Some (data e)) (if take 1 token = ''*'' then drop 1 token else token) = Inr category
         \<and> (truthy category \<longrightarrow>
              (\<exists>list. pool_of (data e) (if take 1 token = ''*'' then drop 1 token else token) = Inr list
                 \<and> fresh_in_reach e (length list)))))"

text \<open>The store has sentence structures, at least one, and all their tokens are such tokens.\<close>

definition word_structures :: "env \<Rightarrow> bool" where
  "word_structures e =
     (\<exists>structures. getProp (Some (data e)) ''structures'' = Inr (Some (JArr structures))
        \<and> structures \<noteq> []
        \<and> (\<forall>s\<in>set structures. \<exists>tokens. string_array_map (Some s) = Inr tokens
              \<and> (\<forall>t\<in>set tokens. word_token e t)))"

section \<open>Example instances\<close>

text \<open>
  Instances on which the theorems below are run: a store, a sequence of random numbers,
  room for 7000 nested calls, no ligature rule, and for the library functions the upper
  case of ASCII letters and the decimal digits of whole numbers.
\<close>

definition ascii_upper :: "string \<Rightarrow> string" where
  "ascii_upper s =
     map (\<lambda>c. case map_of (zip ''abcdefghijklmnopqrstuvwxyz'' ''ABCDEFGHIJKLMNOPQRSTUVWXYZ'') c of
                None \<Rightarrow> c | Some u \<Rightarrow> u) s"

fun integerToString :: "jsnum \<Rightarrow> string" where
  "integerToString NaN = ''NaN''"
| "integerToString PosInf = ''Infinity''"
| "integerToString NegInf = ''-Infinity''"
| "integerToString (Fin r) = (if r < 0 then ''-'' else []) @ decimal (nat \<lfloor>\<bar>r\<bar>\<rfloor>)"

definition example_env :: "json \<Rightarrow> string list \<Rightarrow> (nat \<Rightarrow> real) \<Rightarrow> env" where
  "example_env d ws rnd =
     \<lparr>data = d, ligatures = [], wordsArr = ws, random = rnd, callStack = 7000,
      toUpperCase = ascii_upper,
      replaceRegExp = (\<lambda>pattern replacement subject. subject),
      numberToString = integerToString\<rparr>"

text \<open>The state after the two \<^verbatim>\<open>clear()\<close> of \<^verbatim>\<open>setup\<close>, with \<open>n\<close> random numbers consumed.\<close>

definition cleared :: "nat \<Rightarrow> state" where
  "cleared n = \<lparr>usedWords = [], usedDictionary = {}, pos = n\<rparr>"

text \<open>A store with one sentence structure, a pool of six places and an empty pool.\<close>

definition town_store :: json where
  "town_store = JObj
     [(''structures'', JArr [JArr [JStr ''howdy'', JStr ''place'']]),
      (''place'', JArr [JStr ''saloon'', JStr ''ranch'', JStr ''canyon'', JStr ''mesa'',
                        JStr ''gulch'', JStr ''corral'']),
      (''ghosts'', JArr [])]"

text \<open>The random numbers \<open>0, 1/7, 2/7, ..., 6/7, 0, 1/7, ...\<close>\<close>

definition sevenths :: "nat \<Rightarrow> real" where
  "sevenths i = real (i mod 7) / 7"

text \<open>A store whose only structure has two literal words.\<close>

definition plain_store :: json where
  "plain_store = JObj [(''structures'', JArr [JArr [JStr ''howdy'', JStr ''partner'']])]"

definition example_settings :: "real \<Rightarrow> IpsumType \<Rightarrow> Settings" where
  "example_settings n t = \<lparr>s_url = ''http://sidlipsum.smnarnold.com'', s_nbr = Fin n, s_type = t\<rparr>"

text \<open>Three partials, as \<^verbatim>\<open>getPartial\<close> returns them.\<close>

definition posse :: "PartialResult list" where
  "posse =
    [\<lparr>p_type = ''hero'', p_text = Some ''the sheriff'', p_gender = Some ''f'', p_number = Some ''singular''\<rparr>,
     \<lparr>p_type = ''hero'', p_text = Some ''the cowboy'', p_gender = Some ''m'', p_number = Some ''singular''\<rparr>,
     \<lparr>p_type = ''hero'', p_text = Some ''the kid'', p_gender = Some ''f'', p_number = Some ''plural''\<rparr>]"

text \<open>A store whose structure has an optional token that names nothing in the store.\<close>

definition ghost_store :: json where
  "ghost_store = JObj [(''structures'', JArr [JArr [JStr ''*ghost'', JStr ''rides'']])]"

text \<open>
  A store whose structure starts with the section \<^verbatim>\<open>protagonists\<close>, which has both
  genders and one number each.
\<close>

definition hero_store :: json where
  "hero_store = JObj
     [(''structures'', JArr [JArr [JStr ''?protagonists'', JStr ''rides'']]),
      (''protagonists'', JObj
         [(''structure'', JArr [JStr ''item'']),
          (''m'', JObj [(''singular'', JObj [(''item'',
              JObj [(''required'', JNum 1), (''values'', JArr [JStr ''cowboy''])])])]),
          (''f'', JObj [(''singular'', JObj [(''item'',
              JObj [(''required'', JNum 1), (''values'', JArr [JStr ''cowgirl''])])])])])]"

section \<open>The spec's wording, for comparison\<close>

text \<open>
  How the spec says the units of a run are put together: paragraphs, sentences and words
  separated by a single space, list items with no separator.  The code's own joining
  is \<open>concat\<close>, in \<open>run_setup\<close>.
\<close>

definition spec_concatenated :: "IpsumType \<Rightarrow> string list \<Rightarrow> string" where
  "spec_concatenated t units = (if t = Lists then concat units else join_sp units)"

text \<open>
  The white-space tokens of a text, which the spec says the summary counts: the maximal
  runs of code units that are not white space.  \<open>cur\<close> is the token being read,
  reversed.
\<close>

fun ws_tokens_acc :: "string \<Rightarrow> string \<Rightarrow> string list" where
  "ws_tokens_acc cur [] = (if cur = [] then [] else [rev cur])"
| "ws_tokens_acc cur (c # cs) =
     (if is_ws c
      then (if cur = [] then ws_tokens_acc [] cs else rev cur # ws_tokens_acc [] cs)
      else ws_tokens_acc (c # cur) cs)"

definition whitespace_tokens :: "string \<Rightarrow> string list" where
  "whitespace_tokens txt = ws_tokens_acc [] txt"

section \<open>Facts about the draws\<close>

lemma used_of_pos [simp]: "used_of (st\<lparr>pos := p\<rparr>) ty = used_of st ty"
  by (simp add: used_of_def)

lemma used_of_Math_random [simp]: "used_of (snd (Math_random e st)) ty = used_of st ty"
  by (simp add: Math_random_def)

lemma randomFromArray_eq:
  "randomFromArray e arr st =
     (nth_opt arr (floor_index (random e (pos st)) (length arr)), st\<lparr>pos := Suc (pos st)\<rparr>)"
  by (simp add: randomFromArray_def Math_random_def)

lemma getRandomWord_from_error:
  "pool_of (data e) ty = Inl err \<Longrightarrow> getRandomWord_from e ty depth st = Some (Inl err)"
  by (subst getRandomWord_from.simps) simp

lemma getRandomWord_from_accept:
  assumes "pool_of (data e) ty = Inr list"
    and "floor_index (random e (pos st)) (length list) \<notin> set (used_of st ty)"
  shows "getRandomWord_from e ty depth st =
     Some (Inr (nth_opt list (floor_index (random e (pos st)) (length list)),
       st\<lparr>pos := Suc (pos st),
          usedWords := AList.update ty
            (push_used (used_of st ty) (floor_index (random e (pos st)) (length list)))
            (usedWords st)\<rparr>))"
  using assms by (subst getRandomWord_from.simps) (simp add: Let_def)

lemma getRandomWord_from_redraw:
  assumes "pool_of (data e) ty = Inr list"
    and "floor_index (random e (pos st)) (length list) \<in> set (used_of st ty)"
    and "depth < callStack e"
  shows "getRandomWord_from e ty depth st = getRandomWord_from e ty (Suc depth) (st\<lparr>pos := Suc (pos st)\<rparr>)"
  using assms by (subst getRandomWord_from.simps) (simp add: Let_def)

lemma getRandomWord_from_overflow:
  assumes "pool_of (data e) ty = Inr list"
    and "floor_index (random e (pos st)) (length list) \<in> set (used_of st ty)"
    and "callStack e \<le> depth"
  shows "getRandomWord_from e ty depth st = Some (Inl RangeError)"
  using assms by (subst getRandomWord_from.simps) (simp add: Let_def)

text \<open>
  The draw returns at the first random number whose index is not remembered, when the
  stack has room for the self-calls before it.
\<close>

lemma getRandomWord_from_returns:
  assumes "pool_of (data e) ty = Inr list"
    and "\<forall>j<k. floor_index (random e (pos st + j)) (length list) \<in> set (used_of st ty)"
    and "floor_index (random e (pos st + k)) (length list) \<notin> set (used_of st ty)"
    and "depth + k \<le> callStack e"
  shows "getRandomWord_from e ty depth st =
     Some (Inr (nth_opt list (floor_index (random e (pos st + k)) (length list)),
       st\<lparr>pos := Suc (pos st + k),
          usedWords := AList.update ty
            (push_used (used_of st ty) (floor_index (random e (pos st + k)) (length list)))
            (usedWords st)\<rparr>))"
  using assms(2,3,4)
proof (induction k arbitrary: st depth)
  case 0
  then show ?case using getRandomWord_from_accept[OF assms(1), of st depth] by simp
next
  case (Suc k)
  let ?st1 = "st\<lparr>pos := Suc (pos st)\<rparr>"
  from Suc.prems(1) have in0: "floor_index (random e (pos st)) (length list) \<in> set (used_of st ty)"
    by (metis add.right_neutral zero_less_Suc)
  have a: "\<forall>j<k. floor_index (random e (pos ?st1 + j)) (length list) \<in> set (used_of ?st1 ty)"
    using Suc.prems(1) by (simp add: Suc_less_eq2) (metis Suc_less_eq add_Suc_right)
  have b: "floor_index (random e (pos ?st1 + k)) (length list) \<notin> set (used_of ?st1 ty)"
    using Suc.prems(2) by simp
  have c: "Suc depth + k \<le> callStack e" using Suc.prems(3) by simp
  have d: "depth < callStack e" using Suc.prems(3) by simp
  show ?case
    using Suc.IH[OF a b c] getRandomWord_from_redraw[OF assms(1) in0 d] by simp
qed

text \<open>
  It throws a \<^verbatim>\<open>RangeError\<close> when every random number gives a remembered index until
  the stack is full.
\<close>

lemma getRandomWord_from_exhausts:
  assumes "pool_of (data e) ty = Inr list"
    and "\<forall>j\<le>callStack e - depth. floor_index (random e (pos st + j)) (length list) \<in> set (used_of st ty)"
  shows "getRandomWord_from e ty depth st = Some (Inl RangeError)"
  using assms(2)
proof (induction "callStack e - depth" arbitrary: st depth)
  case 0
  then have "callStack e \<le> depth" by simp
  moreover from 0 have "floor_index (random e (pos st)) (length list) \<in> set (used_of st ty)"
    by simp
  ultimately show ?case using getRandomWord_from_overflow[OF assms(1)] by blast
next
  case (Suc n)
  let ?st1 = "st\<lparr>pos := Suc (pos st)\<rparr>"
  from Suc.hyps(2) have d: "depth < callStack e" and n: "n = callStack e - Suc depth" by simp_all
  from Suc.prems have in0: "floor_index (random e (pos st)) (length list) \<in> set (used_of st ty)"
    by (metis add.right_neutral le0)
  have a: "\<forall>j\<le>callStack e - Suc depth.
      floor_index (random e (pos ?st1 + j)) (length list) \<in> set (used_of ?st1 ty)"
  proof (intro allI impI)
    fix j assume "j \<le> callStack e - Suc depth"
    then have "Suc j \<le> callStack e - depth" using d by simp
    with Suc.prems have "floor_index (random e (pos st + Suc j)) (length list) \<in> set (used_of st ty)"
      by blast
    then show "floor_index (random e (pos ?st1 + j)) (length list) \<in> set (used_of ?st1 ty)"
      by simp
  qed
  from Suc.hyps(1)[OF n a] getRandomWord_from_redraw[OF assms(1) in0 d]
  show ?case by simp
qed

lemma getRandomWord_error:
  "pool_of (data e) ty = Inl err \<Longrightarrow> getRandomWord e ty st = Some (Inl err)"
  by (simp add: getRandomWord_def getRandomWord_from_error)

lemma getRandomWord_accept:
  assumes "pool_of (data e) ty = Inr list"
    and "floor_index (random e (pos st)) (length list) \<notin> set (used_of st ty)"
  shows "getRandomWord e ty st =
     Some (Inr (nth_opt list (floor_index (random e (pos st)) (length list)),
       st\<lparr>pos := Suc (pos st),
          usedWords := AList.update ty
            (push_used (used_of st ty) (floor_index (random e (pos st)) (length list)))
            (usedWords st)\<rparr>))"
  unfolding getRandomWord_def by (rule getRandomWord_from_accept[OF assms])

lemma getRandomWord_returns:
  assumes "pool_of (data e) ty = Inr list"
    and "\<forall>j<k. floor_index (random e (pos st + j)) (length list) \<in> set (used_of st ty)"
    and "floor_index (random e (pos st + k)) (length list) \<notin> set (used_of st ty)"
    and "k \<le> callStack e"
  shows "getRandomWord e ty st =
     Some (Inr (nth_opt list (floor_index (random e (pos st + k)) (length list)),
       st\<lparr>pos := Suc (pos st + k),
          usedWords := AList.update ty
            (push_used (used_of st ty) (floor_index (random e (pos st + k)) (length list)))
            (usedWords st)\<rparr>))"
  unfolding getRandomWord_def using assms by (intro getRandomWord_from_returns) simp_all

lemma getRandomWord_exhausts:
  assumes "pool_of (data e) ty = Inr list"
    and "\<forall>j\<le>callStack e. floor_index (random e (pos st + j)) (length list) \<in> set (used_of st ty)"
  shows "getRandomWord e ty st = Some (Inl RangeError)"
  unfolding getRandomWord_def using assms by (intro getRandomWord_from_exhausts) simp_all

text \<open>
  The first random number of a draw whose index is not remembered, among those the
  stack has room for.
\<close>

lemma first_fresh:
  fixes P :: "nat \<Rightarrow> bool"
  assumes "\<exists>k\<le>n. P k"
  shows "\<exists>k\<le>n. P k \<and> (\<forall>j<k. \<not> P j)"
proof -
  from assms obtain k0 where k0: "k0 \<le> n" "P k0" by blast
  define k where "k = (LEAST k. P k)"
  have "P k" unfolding k_def using k0(2) by (rule LeastI)
  moreover have "k \<le> k0" unfolding k_def using k0(2) by (rule Least_le)
  moreover have "\<forall>j<k. \<not> P j" unfolding k_def using not_less_Least by blast
  ultimately show ?thesis using k0(1) by (intro exI[of _ k]) simp
qed

text \<open>Every draw returns: a word, or an error.\<close>

lemma getRandomWord_total: "\<exists>r. getRandomWord e ty st = Some r"
proof (cases "pool_of (data e) ty")
  case (Inl err)
  then show ?thesis by (simp add: getRandomWord_error)
next
  case (Inr list)
  let ?ok = "\<lambda>k. floor_index (random e (pos st + k)) (length list) \<notin> set (used_of st ty)"
  show ?thesis
  proof (cases "\<exists>k\<le>callStack e. ?ok k")
    case True
    from first_fresh[of "callStack e" ?ok, OF True] obtain k where
      k: "k \<le> callStack e" "?ok k" "\<forall>j<k. \<not> ?ok j" by blast
    then have lt: "\<forall>j<k. floor_index (random e (pos st + j)) (length list) \<in> set (used_of st ty)"
      by simp
    from getRandomWord_returns[OF Inr lt k(2) k(1)] show ?thesis by simp
  next
    case False
    then have "\<forall>j\<le>callStack e. floor_index (random e (pos st + j)) (length list) \<in> set (used_of st ty)"
      by simp
    from getRandomWord_exhausts[OF Inr this] show ?thesis by simp
  qed
qed

text \<open>What a draw that returns a word has done.\<close>

lemma getRandomWord_Inr:
  assumes "getRandomWord e ty st = Some (Inr (w, st'))"
  shows "\<exists>list k. pool_of (data e) ty = Inr list
      \<and> (\<forall>j<k. floor_index (random e (pos st + j)) (length list) \<in> set (used_of st ty))
      \<and> floor_index (random e (pos st + k)) (length list) \<notin> set (used_of st ty)
      \<and> w = nth_opt list (floor_index (random e (pos st + k)) (length list))
      \<and> st' = st\<lparr>pos := Suc (pos st + k),
            usedWords := AList.update ty
              (push_used (used_of st ty) (floor_index (random e (pos st + k)) (length list)))
              (usedWords st)\<rparr>"
proof (cases "pool_of (data e) ty")
  case (Inl err)
  with assms getRandomWord_error[OF Inl, of st] show ?thesis by simp
next
  case (Inr list)
  let ?ok = "\<lambda>k. floor_index (random e (pos st + k)) (length list) \<notin> set (used_of st ty)"
  have "\<exists>k\<le>callStack e. ?ok k"
  proof (rule ccontr)
    assume "\<not> (\<exists>k\<le>callStack e. ?ok k)"
    then have "\<forall>j\<le>callStack e. floor_index (random e (pos st + j)) (length list) \<in> set (used_of st ty)"
      by simp
    from getRandomWord_exhausts[OF Inr this] assms show False by simp
  qed
  from first_fresh[of "callStack e" ?ok, OF this] obtain k where
    k: "k \<le> callStack e" "?ok k" "\<forall>j<k. \<not> ?ok j" by blast
  then have lt: "\<forall>j<k. floor_index (random e (pos st + j)) (length list) \<in> set (used_of st ty)"
    by simp
  from getRandomWord_returns[OF Inr lt k(2) k(1)] assms
  show ?thesis using Inr lt k(2) by auto
qed

lemma floor_index_hit: "i < n \<Longrightarrow> floor_index (real i / real n) n = i"
  by (simp add: floor_index_def)

lemma floor_index_zero [simp]: "floor_index u 0 = 0"
  by (simp add: floor_index_def)

lemma index_outside_memory:
  fixes used :: "nat list" and n :: nat
  assumes "length used \<le> 4" and "4 < n"
  shows "\<exists>i<n. i \<notin> set used"
proof (rule ccontr)
  assume "\<not> (\<exists>i<n. i \<notin> set used)"
  then have "{..<n} \<subseteq> set used" by auto
  then have "card {..<n} \<le> card (set used)" by (intro card_mono) simp_all
  also have "\<dots> \<le> length used" by (rule card_length)
  finally show False using assms by simp
qed

text \<open>Unfolding the definitions on the example instances.\<close>

lemma Array_from_numeral [simp]:
  "Array_from (numeral k) f st =
    (case f st of
       None \<Rightarrow> None
     | Some (Inl err) \<Rightarrow> Some (Inl err)
     | Some (Inr (x, st1)) \<Rightarrow>
        (case Array_from (pred_numeral k) f st1 of
           None \<Rightarrow> None
         | Some (Inl err) \<Rightarrow> Some (Inl err)
         | Some (Inr (xs, st2)) \<Rightarrow> Some (Inr (x # xs, st2))))"
  by (simp add: numeral_eq_Suc)

lemmas ev = example_env_def cleared_def nth_opt_def floor_index_def sevenths_def Let_def
  randomFromArray_def Math_random_def random_between_def ebind_def js_string_def
  generate_units_def generateParagraph_def generateSentence_def pick_structure_def
  capitalize_def join_parts_def ascii_upper_def example_settings_def plain_store_def
  randomWordFromPool_def inherited_methods_def

section \<open>C2: how a category draw ends\<close>

text \<open>
  Claim C2, as amended.  Every category draw ends: it returns a word or it throws.  For
  a category whose pool is an array of strings, the draw returns a word exactly when one
  of the random numbers for which the call stack has room gives an index that is not in
  the category's memory; it then returns the entry at the first such index.  Otherwise
  it throws a \<^verbatim>\<open>RangeError\<close>.  On an empty pool the index is always 0 and no
  configuration error is raised: while 0 is not remembered the draw returns
  \<^verbatim>\<open>undefined\<close> and remembers 0, and once 0 is remembered the draw calls itself until
  the stack is full and throws a \<^verbatim>\<open>RangeError\<close>.  When the pool has more than 4 entries
  and the memory at most 4, an index outside the memory exists, some value of
  \<^verbatim>\<open>Math.random()\<close> gives it, and the draw returns its entry at once when the random
  number drawn gives it.
\<close>

theorem getRandomWord_ends:
  "(\<exists>r. getRandomWord e ty st = Some r)
   \<and> (pool_of (data e) ty = Inr list \<longrightarrow>
        ((\<exists>w st'. getRandomWord e ty st = Some (Inr (w, st'))) \<longleftrightarrow>
           (\<exists>k\<le>callStack e. floor_index (random e (pos st + k)) (length list) \<notin> set (used_of st ty)))
      \<and> (\<forall>k\<le>callStack e.
           (\<forall>j<k. floor_index (random e (pos st + j)) (length list) \<in> set (used_of st ty))
           \<and> floor_index (random e (pos st + k)) (length list) \<notin> set (used_of st ty) \<longrightarrow>
           getRandomWord e ty st =
             Some (Inr (nth_opt list (floor_index (random e (pos st + k)) (length list)),
               st\<lparr>pos := Suc (pos st + k),
                  usedWords := AList.update ty
                    (push_used (used_of st ty) (floor_index (random e (pos st + k)) (length list)))
                    (usedWords st)\<rparr>)))
      \<and> ((\<forall>k\<le>callStack e. floor_index (random e (pos st + k)) (length list) \<in> set (used_of st ty)) \<longrightarrow>
           getRandomWord e ty st = Some (Inl RangeError))
      \<and> (list = [] \<and> 0 \<notin> set (used_of st ty) \<longrightarrow>
           getRandomWord e ty st = Some (Inr (None,
             st\<lparr>pos := Suc (pos st),
                usedWords := AList.update ty (push_used (used_of st ty) 0) (usedWords st)\<rparr>)))
      \<and> (list = [] \<and> 0 \<in> set (used_of st ty) \<longrightarrow> getRandomWord e ty st = Some (Inl RangeError))
      \<and> (4 < length list \<and> length (used_of st ty) \<le> 4 \<longrightarrow>
           (\<exists>i<length list. i \<notin> set (used_of st ty)
              \<and> floor_index (real i / real (length list)) (length list) = i
              \<and> (floor_index (random e (pos st)) (length list) = i \<longrightarrow>
                   getRandomWord e ty st =
                     Some (Inr (Some (list ! i),
                       st\<lparr>pos := Suc (pos st),
                          usedWords := AList.update ty (push_used (used_of st ty) i) (usedWords st)\<rparr>))))))"
proof (intro conjI impI)
  show "\<exists>r. getRandomWord e ty st = Some r" by (rule getRandomWord_total)
next
  assume p: "pool_of (data e) ty = Inr list"
  let ?ok = "\<lambda>k. floor_index (random e (pos st + k)) (length list) \<notin> set (used_of st ty)"
  show "(\<exists>w st'. getRandomWord e ty st = Some (Inr (w, st'))) \<longleftrightarrow> (\<exists>k\<le>callStack e. ?ok k)"
  proof
    assume r: "\<exists>w st'. getRandomWord e ty st = Some (Inr (w, st'))"
    show "\<exists>k\<le>callStack e. ?ok k"
    proof (rule ccontr)
      assume "\<not> (\<exists>k\<le>callStack e. ?ok k)"
      then have "\<forall>j\<le>callStack e. floor_index (random e (pos st + j)) (length list) \<in> set (used_of st ty)"
        by simp
      from getRandomWord_exhausts[OF p this] r show False by simp
    qed
  next
    assume "\<exists>k\<le>callStack e. ?ok k"
    from first_fresh[of "callStack e" ?ok, OF this] obtain k where
      k: "k \<le> callStack e" "?ok k" "\<forall>j<k. \<not> ?ok j" by blast
    then have lt: "\<forall>j<k. floor_index (random e (pos st + j)) (length list) \<in> set (used_of st ty)"
      by simp
    from getRandomWord_returns[OF p lt k(2) k(1)]
    show "\<exists>w st'. getRandomWord e ty st = Some (Inr (w, st'))" by simp
  qed
next
  assume p: "pool_of (data e) ty = Inr list"
  show "\<forall>k\<le>callStack e.
           (\<forall>j<k. floor_index (random e (pos st + j)) (length list) \<in> set (used_of st ty))
           \<and> floor_index (random e (pos st + k)) (length list) \<notin> set (used_of st ty) \<longrightarrow>
           getRandomWord e ty st =
             Some (Inr (nth_opt list (floor_index (random e (pos st + k)) (length list)),
               st\<lparr>pos := Suc (pos st + k),
                  usedWords := AList.update ty
                    (push_used (used_of st ty) (floor_index (random e (pos st + k)) (length list)))
                    (usedWords st)\<rparr>))"
    using getRandomWord_returns[OF p] by blast
next
  assume p: "pool_of (data e) ty = Inr list"
    and "\<forall>k\<le>callStack e. floor_index (random e (pos st + k)) (length list) \<in> set (used_of st ty)"
  then show "getRandomWord e ty st = Some (Inl RangeError)"
    by (rule getRandomWord_exhausts)
next
  assume p: "pool_of (data e) ty = Inr list" and a: "list = [] \<and> 0 \<notin> set (used_of st ty)"
  then show "getRandomWord e ty st = Some (Inr (None,
            st\<lparr>pos := Suc (pos st),
               usedWords := AList.update ty (push_used (used_of st ty) 0) (usedWords st)\<rparr>))"
    using getRandomWord_accept[OF p, of st] by (simp add: nth_opt_def)
next
  assume p: "pool_of (data e) ty = Inr list" and a: "list = [] \<and> 0 \<in> set (used_of st ty)"
  then show "getRandomWord e ty st = Some (Inl RangeError)"
    using getRandomWord_exhausts[OF p, of st] by simp
next
  assume p: "pool_of (data e) ty = Inr list"
    and a: "4 < length list \<and> length (used_of st ty) \<le> 4"
  then obtain i where i: "i < length list" "i \<notin> set (used_of st ty)"
    using index_outside_memory by blast
  have "floor_index (random e (pos st)) (length list) = i \<longrightarrow>
          getRandomWord e ty st =
            Some (Inr (Some (list ! i),
              st\<lparr>pos := Suc (pos st),
                 usedWords := AList.update ty (push_used (used_of st ty) i) (usedWords st)\<rparr>))"
    using getRandomWord_accept[OF p, of st] i by (auto simp: nth_opt_def)
  with i floor_index_hit[OF i(1)]
  show "\<exists>i<length list. i \<notin> set (used_of st ty)
              \<and> floor_index (real i / real (length list)) (length list) = i
              \<and> (floor_index (random e (pos st)) (length list) = i \<longrightarrow>
                   getRandomWord e ty st =
                     Some (Inr (Some (list ! i),
                       st\<lparr>pos := Suc (pos st),
                          usedWords := AList.update ty (push_used (used_of st ty) i) (usedWords st)\<rparr>)))"
    by blast
qed

text \<open>The two pools of the example store.\<close>

lemma pool_place: "pool_of town_store ''place'' = Inr [''saloon'', ''ranch'', ''canyon'', ''mesa'', ''gulch'', ''corral'']"
  by (simp add: pool_of_def town_store_def ebind_def)

lemma pool_ghosts: "pool_of town_store ''ghosts'' = Inr []"
  by (simp add: pool_of_def town_store_def ebind_def)

text \<open>
  Claim C2 as stated fails: the first draw of a run on the empty pool \<^verbatim>\<open>ghosts\<close> raises
  nothing and returns \<^verbatim>\<open>undefined\<close>, which \<^verbatim>\<open>parts.join(" ")\<close> turns into the empty
  string.
\<close>

theorem empty_pool_no_error:
  "getRandomWord (example_env town_store [] sevenths) ''ghosts'' (cleared 0) =
     Some (Inr (None, \<lparr>usedWords = [(''ghosts'', [0])], usedDictionary = {}, pos = 1\<rparr>))"
  using getRandomWord_accept[of "example_env town_store [] sevenths" "''ghosts''" "[]" "cleared 0"]
  by (simp add: example_env_def pool_ghosts cleared_def used_of_def push_used_def nth_opt_def)

text \<open>
  The theorem on the example store: the empty pool (a first draw, then a second draw
  that ends with a \<^verbatim>\<open>RangeError\<close>), and the pool of six places with index 0 remembered,
  under the constant random sequence 0 (a \<^verbatim>\<open>RangeError\<close>) and under the sevenths (one
  redraw, then the second place).
\<close>

theorem getRandomWord_ends_witness:
  "pool_of (data (example_env town_store [] (\<lambda>i. 0))) ''ghosts'' = Inr []
   \<and> getRandomWord (example_env town_store [] (\<lambda>i. 0)) ''ghosts'' (cleared 0) =
       Some (Inr (None, \<lparr>usedWords = [(''ghosts'', [0])], usedDictionary = {}, pos = 1\<rparr>))
   \<and> getRandomWord (example_env town_store [] (\<lambda>i. 0)) ''ghosts''
        \<lparr>usedWords = [(''ghosts'', [0])], usedDictionary = {}, pos = 1\<rparr> = Some (Inl RangeError)
   \<and> pool_of (data (example_env town_store [] (\<lambda>i. 0))) ''place''
        = Inr [''saloon'', ''ranch'', ''canyon'', ''mesa'', ''gulch'', ''corral'']
   \<and> getRandomWord (example_env town_store [] (\<lambda>i. 0)) ''place''
        \<lparr>usedWords = [(''place'', [0])], usedDictionary = {}, pos = 1\<rparr> = Some (Inl RangeError)
   \<and> getRandomWord (example_env town_store [] sevenths) ''place''
        \<lparr>usedWords = [(''place'', [0])], usedDictionary = {}, pos = 1\<rparr>
      = Some (Inr (Some ''ranch'', \<lparr>usedWords = [(''place'', [0, 1])], usedDictionary = {}, pos = 3\<rparr>))"
proof -
  let ?e = "example_env town_store [] (\<lambda>i. 0)"
  let ?e7 = "example_env town_store [] sevenths"
  let ?s1 = "\<lparr>usedWords = [(''ghosts'', [0])], usedDictionary = {}, pos = 1\<rparr>"
  let ?p1 = "\<lparr>usedWords = [(''place'', [0])], usedDictionary = {}, pos = 1\<rparr>"
  let ?pl = "[''saloon'', ''ranch'', ''canyon'', ''mesa'', ''gulch'', ''corral'']"
  have g: "pool_of (data ?e) ''ghosts'' = Inr []" by (simp add: example_env_def pool_ghosts)
  have p: "pool_of (data ?e) ''place'' = Inr ?pl"
    by (simp add: example_env_def pool_place)
  have p7: "pool_of (data ?e7) ''place'' = Inr ?pl"
    by (simp add: example_env_def pool_place)
  note G0 = getRandomWord_ends[of ?e "''ghosts''" "cleared 0" "[]", THEN conjunct2, THEN mp, OF g]
  note G1 = getRandomWord_ends[of ?e "''ghosts''" ?s1 "[]", THEN conjunct2, THEN mp, OF g]
  note P0 = getRandomWord_ends[of ?e "''place''" ?p1 ?pl, THEN conjunct2, THEN mp, OF p]
  note P7 = getRandomWord_ends[of ?e7 "''place''" ?p1 ?pl, THEN conjunct2, THEN mp, OF p7]
  have u0: "[] = ([]::string list) \<and> 0 \<notin> set (used_of (cleared 0) ''ghosts'')"
    by (simp add: cleared_def used_of_def)
  from G0 u0 have "getRandomWord ?e ''ghosts'' (cleared 0) = Some (Inr (None,
        (cleared 0)\<lparr>pos := Suc (pos (cleared 0)),
           usedWords := AList.update ''ghosts'' (push_used (used_of (cleared 0) ''ghosts'') 0)
             (usedWords (cleared 0))\<rparr>))" by blast
  then have 1: "getRandomWord ?e ''ghosts'' (cleared 0) = Some (Inr (None, ?s1))"
    by (simp add: cleared_def used_of_def push_used_def)
  have u1: "[] = ([]::string list) \<and> 0 \<in> set (used_of ?s1 ''ghosts'')"
    by (simp add: used_of_def)
  from G1 u1 have 2: "getRandomWord ?e ''ghosts'' ?s1 = Some (Inl RangeError)" by blast
  have "\<forall>k\<le>callStack ?e. floor_index (random ?e (pos ?p1 + k)) (length ?pl) \<in> set (used_of ?p1 ''place'')"
    by (simp add: used_of_def example_env_def floor_index_def)
  with P0 have 3: "getRandomWord ?e ''place'' ?p1 = Some (Inl RangeError)" by blast
  have k1: "(1::nat) \<le> callStack ?e7" by (simp add: example_env_def)
  have f1: "(\<forall>j<(1::nat). floor_index (random ?e7 (pos ?p1 + j)) (length ?pl) \<in> set (used_of ?p1 ''place''))
     \<and> floor_index (random ?e7 (pos ?p1 + 1)) (length ?pl) \<notin> set (used_of ?p1 ''place'')"
    by (simp add: used_of_def example_env_def floor_index_def sevenths_def)
  from P7 k1 f1 have "getRandomWord ?e7 ''place'' ?p1 =
      Some (Inr (nth_opt ?pl (floor_index (random ?e7 (pos ?p1 + 1)) (length ?pl)),
        ?p1\<lparr>pos := Suc (pos ?p1 + 1),
           usedWords := AList.update ''place''
             (push_used (used_of ?p1 ''place'') (floor_index (random ?e7 (pos ?p1 + 1)) (length ?pl)))
             (usedWords ?p1)\<rparr>))" by blast
  then have 4: "getRandomWord ?e7 ''place'' ?p1 =
      Some (Inr (Some ''ranch'', \<lparr>usedWords = [(''place'', [0, 1])], usedDictionary = {}, pos = 3\<rparr>))"
    by (simp add: used_of_def example_env_def floor_index_def sevenths_def nth_opt_def push_used_def)
  from g p 1 2 3 4 show ?thesis by blast
qed

section \<open>Facts about the two memories\<close>

lemma getRandomNoRepeat_cases:
  "getRandomNoRepeat e arr st =
     (case nth_opt arr (floor_index (random e (pos st)) (length arr)) of
        None \<Rightarrow> Inl TypeError
      | Some w \<Rightarrow>
          if w \<notin> usedDictionary st \<and> 3 < length w
          then Inr (Some w, st\<lparr>pos := Suc (pos st), usedDictionary := insert w (usedDictionary st)\<rparr>)
          else Inr (nth_opt arr (floor_index (random e (Suc (pos st))) (length arr)),
                    st\<lparr>pos := Suc (Suc (pos st))\<rparr>))"
  by (simp add: getRandomNoRepeat_def randomFromArray_eq split: option.splits)

lemma getRandomNoRepeat_usedWords:
  "getRandomNoRepeat e arr st = Inr (v, st') \<Longrightarrow> usedWords st' = usedWords st"
  by (auto simp: getRandomNoRepeat_cases split: option.splits if_splits)

lemma last_push_used [simp]: "last (push_used u i) = i"
  by (cases u) (auto simp: push_used_def)

lemma push_used_drop:
  assumes "u = drop (length h - 4) h"
  shows "push_used u i = drop (length (h @ [i]) - 4) (h @ [i])"
proof (cases "4 \<le> length h")
  case True
  then have "length u = 4" using assms by simp
  then have "push_used u i = tl u @ [i]"
    by (cases u) (simp_all add: push_used_def)
  also have "tl u = drop (Suc (length h - 4)) h"
    using assms by (simp add: tl_drop drop_Suc)
  also have "Suc (length h - 4) = length (h @ [i]) - 4"
    using True by simp
  finally show ?thesis using True by simp
next
  case False
  then show ?thesis using assms by (simp add: push_used_def)
qed

lemma window_snoc:
  assumes win: "\<forall>k. distinct (take 5 (drop k h))"
    and fresh: "i \<notin> set (drop (length h - 4) h)"
  shows "distinct (take 5 (drop k (h @ [i])))"
proof (cases "k + 5 \<le> length h")
  case True
  then have "5 - (length h - k) = 0" by simp
  then have eq: "take 5 (drop k (h @ [i])) = take 5 (drop k h)" by simp
  show ?thesis unfolding eq using win by simp
next
  case False
  show ?thesis
  proof (cases "k \<le> length h")
    case True
    have "take 5 (drop k (h @ [i])) = take 5 (drop k h @ [i])" using True by simp
    also have "\<dots> = drop k h @ [i]" using False by simp
    finally have eq: "take 5 (drop k (h @ [i])) = drop k h @ [i]" .
    have "drop k h = take 5 (drop k h)" using False by simp
    then have d: "distinct (drop k h)" using win by metis
    have "set (drop k h) \<subseteq> set (drop (length h - 4) h)"
      using False by (intro set_drop_subset_set_drop) simp
    with fresh have "i \<notin> set (drop k h)" by blast
    with d eq show ?thesis by simp
  next
    case False
    then show ?thesis by simp
  qed
qed

lemma run_hist_inv:
  assumes "run_hist e ty st0 h st" and "usedWords st0 = []"
  shows "used_of st ty = drop (length h - 4) h \<and> (\<forall>k. distinct (take 5 (drop k h)))"
  using assms
proof (induction rule: run_hist.induct)
  case start
  then show ?case by (simp add: used_of_def)
next
  case (draw h st1)
  then show ?case by simp
next
  case (val h st1 arr v st2)
  then show ?case using getRandomNoRepeat_usedWords[OF val.hyps(2)] by (simp add: used_of_def)
next
  case (other h st1 ty' w st2)
  from getRandomWord_Inr[OF other.hyps(2)] obtain u p where
    "st2 = st1\<lparr>pos := p, usedWords := AList.update ty' u (usedWords st1)\<rparr>" by blast
  then have "used_of st2 ty = used_of st1 ty"
    using other.hyps(3) by (simp add: used_of_def update_conv')
  with other show ?case by simp
next
  case (same h st1 w st2)
  from getRandomWord_Inr[OF same.hyps(2)] obtain i p where
    fresh: "i \<notin> set (used_of st1 ty)" and
    st2: "st2 = st1\<lparr>pos := p, usedWords := AList.update ty (push_used (used_of st1 ty) i) (usedWords st1)\<rparr>"
    by blast
  have IH: "used_of st1 ty = drop (length h - 4) h" "\<forall>k. distinct (take 5 (drop k h))"
    using same by simp_all
  have u2: "used_of st2 ty = push_used (used_of st1 ty) i"
    using st2 by (simp add: used_of_def update_conv')
  have u2': "used_of st2 ty = drop (length (h @ [i]) - 4) (h @ [i])"
    using u2 push_used_drop[OF IH(1)] by simp
  have l: "last (used_of st2 ty) = i" using u2 by simp
  have "\<forall>k. distinct (take 5 (drop k (h @ [i])))"
    using window_snoc[OF IH(2)] fresh IH(1) by simp
  with u2' l show ?case by simp
qed

lemma getRandomWord_accepted_index:
  assumes "getRandomWord e ty st = Some (Inr (w, st'))"
  shows "last (used_of st' ty) \<notin> set (used_of st ty)
       \<and> used_of st' ty = push_used (used_of st ty) (last (used_of st' ty))
       \<and> (\<exists>list. pool_of (data e) ty = Inr list \<and> w = nth_opt list (last (used_of st' ty)))"
proof -
  from getRandomWord_Inr[OF assms] obtain list i p where
    pool: "pool_of (data e) ty = Inr list" and
    fresh: "i \<notin> set (used_of st ty)" and
    w: "w = nth_opt list i" and
    st': "st' = st\<lparr>pos := p, usedWords := AList.update ty (push_used (used_of st ty) i) (usedWords st)\<rparr>"
    by blast
  have u: "used_of st' ty = push_used (used_of st ty) i"
    using st' by (simp add: used_of_def update_conv')
  then have "last (used_of st' ty) = i" by simp
  with pool fresh w u show ?thesis by simp
qed

lemma run_steps_dict_mono:
  "run_steps e st st' \<Longrightarrow> usedDictionary st \<subseteq> usedDictionary st'"
proof (induction rule: run_steps.induct)
  case here
  then show ?case by simp
next
  case (draw st1)
  then show ?case by (simp add: Math_random_def)
next
  case (word st1 ty w st2)
  from getRandomWord_Inr[OF word.hyps(2)] obtain u p where
    "st2 = st1\<lparr>pos := p, usedWords := u\<rparr>" by blast
  with word.IH show ?case by simp
next
  case (val st1 arr v st2)
  then show ?case
    by (auto simp: getRandomNoRepeat_cases split: option.splits if_splits)
qed

lemma getRandomNoRepeat_Inr:
  assumes "getRandomNoRepeat e arr st = Inr (r, st1)"
  shows "\<exists>w. nth_opt arr (floor_index (random e (pos st)) (length arr)) = Some w
     \<and> (if w \<notin> usedDictionary st \<and> 3 < length w
         then r = Some w
              \<and> st1 = st\<lparr>pos := Suc (pos st), usedDictionary := insert w (usedDictionary st)\<rparr>
         else r = nth_opt arr (floor_index (random e (Suc (pos st))) (length arr))
              \<and> st1 = st\<lparr>pos := Suc (Suc (pos st))\<rparr>)"
proof (cases "nth_opt arr (floor_index (random e (pos st)) (length arr))")
  case None
  with assms show ?thesis by (simp add: getRandomNoRepeat_cases)
next
  case (Some w)
  with assms show ?thesis by (auto simp: getRandomNoRepeat_cases split: if_splits)
qed

section \<open>A generation run is made of steps\<close>

text \<open>
  Every operation of the generator takes a state to a later state of the same run:
  the relation \<open>run_steps\<close> covers \<^verbatim>\<open>getPartial\<close>, \<^verbatim>\<open>getSection\<close>,
  \<^verbatim>\<open>generateSentence\<close>, \<^verbatim>\<open>getLoremIpsum\<close> and the whole of \<^verbatim>\<open>setup\<close>.
\<close>

lemma ebind_Inr: "ebind m f = Inr y \<longleftrightarrow> (\<exists>a. m = Inr a \<and> f a = Inr y)"
  by (cases m) (simp_all add: ebind_def)

lemma run_steps_trans:
  "run_steps e b c \<Longrightarrow> run_steps e a b \<Longrightarrow> run_steps e a c"
  by (induction rule: run_steps.induct) (auto intro: run_steps.intros)

lemma run_steps_randomFromArray: "run_steps e st (snd (randomFromArray e arr st))"
  using run_steps.draw[OF run_steps.here, of e st]
  by (simp add: randomFromArray_def Math_random_def)

lemma run_steps_randomFromArray':
  "randomFromArray e arr st = (x, st') \<Longrightarrow> run_steps e st st'"
  using run_steps_randomFromArray[of e st arr] by simp

lemma run_steps_getRandomNoRepeat:
  "getRandomNoRepeat e arr st = Inr (v, st') \<Longrightarrow> run_steps e st st'"
  by (rule run_steps.val[OF run_steps.here])

lemma run_steps_partial_texts:
  "partial_texts e obj cats st = Inr (xs, st') \<Longrightarrow> run_steps e st st'"
proof (induction cats arbitrary: st xs st')
  case Nil
  then show ?case by (simp add: run_steps.here)
next
  case (Cons category rest)
  from Cons.prems obtain c req ge x st2 xs' where
    c: "getProp obj category = Inr c" and
    req: "getProp c ''required'' = Inr req" and
    ge: "required_ge req (random e (pos st)) = Inr ge" and
    x: "(if ge
           then ebind (ebind (getProp c ''values'') string_array) (\<lambda>arr. getRandomNoRepeat e arr (st\<lparr>pos := Suc (pos st)\<rparr>))
           else ebind (ebind (getProp c ''default'') default_or_empty) (\<lambda>d. Inr (Some d, st\<lparr>pos := Suc (pos st)\<rparr>)))
          = Inr (x, st2)" and
    r: "partial_texts e obj rest st2 = Inr (xs', st')"
    by (auto simp: Math_random_def split: sum.splits prod.splits)
  have s1: "run_steps e st (st\<lparr>pos := Suc (pos st)\<rparr>)"
    using run_steps.draw[OF run_steps.here, of e st] by (simp add: Math_random_def)
  have "run_steps e (st\<lparr>pos := Suc (pos st)\<rparr>) st2"
  proof (cases ge)
    case True
    with x obtain arr where "getRandomNoRepeat e arr (st\<lparr>pos := Suc (pos st)\<rparr>) = Inr (x, st2)"
      by (auto simp: ebind_Inr)
    then show ?thesis by (rule run_steps_getRandomNoRepeat)
  next
    case False
    with x have "st2 = st\<lparr>pos := Suc (pos st)\<rparr>" by (auto simp: ebind_Inr)
    then show ?thesis by (simp add: run_steps.here)
  qed
  with s1 Cons.IH[OF r] show ?case by (blast intro: run_steps_trans)
qed

lemma run_steps_pick_gender: "pick_gender e pre st = (g, st') \<Longrightarrow> run_steps e st st'"
  using run_steps.draw[OF run_steps.here, of e st]
  by (auto simp: pick_gender_def Math_random_def run_steps.here split: option.splits)

lemma run_steps_pick_number: "pick_number e pre numbers st = (n, st') \<Longrightarrow> run_steps e st st'"
  by (auto simp: pick_number_def run_steps.here run_steps_randomFromArray' split: option.splits)

lemma run_steps_getPartial:
  assumes "getPartial e ty pre st = Inr (p, st')"
  shows "run_steps e st st'"
proof -
  obtain gender st1 where g: "pick_gender e pre st = (gender, st1)" by (cases "pick_gender e pre st")
  from assms g obtain numbers obj cats where
    rest: "(let (number, st2) = pick_number e pre numbers st1 in
           ebind (getProp obj (js_string number)) (\<lambda>obj.
           ebind cats (\<lambda>cats.
           ebind (partial_texts e obj cats st2) (\<lambda>(texts, st3).
             Inr (\<lparr>p_type = ty, p_text = Some (join_sp (filter_Boolean texts)),
                    p_gender = Some gender, p_number = number\<rparr>, st3))))) = Inr (p, st')"
    by (auto simp: getPartial_def ebind_Inr)
  obtain number st2 where n: "pick_number e pre numbers st1 = (number, st2)"
    by (cases "pick_number e pre numbers st1")
  from rest n obtain obj' cats' texts where "partial_texts e obj' cats' st2 = Inr (texts, st')"
    by (auto simp: ebind_Inr)
  then have "run_steps e st2 st'" by (rule run_steps_partial_texts)
  with run_steps_pick_gender[OF g] run_steps_pick_number[OF n] show ?thesis
    by (blast intro: run_steps_trans)
qed

lemma run_steps_merge_loop:
  "merge_loop e sep base rest st = Inr (b, st') \<Longrightarrow> run_steps e st st'"
proof (induction rest arbitrary: base st)
  case Nil
  then show ?case by (simp add: run_steps.here)
next
  case (Cons a rest)
  obtain s st1 where s: "randomFromArray e sep st = (s, st1)" by (cases "randomFromArray e sep st")
  from Cons.prems s obtain base2 where "merge_loop e sep base2 rest st1 = Inr (b, st')"
    by (auto simp: Let_def split: if_splits)
  from Cons.IH[OF this] run_steps_randomFromArray'[OF s] show ?case
    by (blast intro: run_steps_trans)
qed

lemma run_steps_mergePartials:
  "mergePartials e arr ty typeObj st = Inr (b, st') \<Longrightarrow> run_steps e st st'"
  by (auto simp: mergePartials_def Let_def ebind_Inr dest: run_steps_merge_loop)

lemma run_steps_map_getPartial:
  "map_getPartial e ts pre st = Inr (ps, st') \<Longrightarrow> run_steps e st st'"
proof (induction ts arbitrary: st ps)
  case Nil
  then show ?case by (simp add: run_steps.here)
next
  case (Cons t ts)
  from Cons.prems obtain p st1 ps' where
    "getPartial e t pre st = Inr (p, st1)" "map_getPartial e ts pre st1 = Inr (ps', st')"
    by (auto split: sum.splits)
  with Cons.IH run_steps_getPartial show ?case by (blast intro: run_steps_trans)
qed

lemma run_steps_getSection_selected:
  "getSection_selected e originalType typeObj pre selected st = Inr (p, st') \<Longrightarrow> run_steps e st st'"
proof (induction e originalType typeObj pre selected st rule: getSection_selected.induct)
  case (1 e originalType typeObj pre s st)
  then show ?case by (simp add: run_steps_getPartial)
next
  case (2 e originalType typeObj pre ts st)
  then obtain names partials st1 where
    "map_getPartial e names pre st = Inr (partials, st1)"
    "mergePartials e partials originalType typeObj st1 = Inr (p, st')"
    by (auto simp: ebind_Inr split: option.splits)
  with run_steps_map_getPartial run_steps_mergePartials show ?case
    by (blast intro: run_steps_trans)
qed simp_all

lemma run_steps_getSection:
  assumes "getSection e originalType pre st = Inr (p, st')"
  shows "run_steps e st st'"
proof -
  from assms obtain typeObj options where
    c: "(if truthy options
      then (case options of
              Some (JArr os) \<Rightarrow>
                (let (selected, st1) = randomFromArray e os st
                 in getSection_selected e originalType typeObj pre selected st1)
            | v \<Rightarrow> Inl Unmodelled)
      else getPartial e originalType pre st) = Inr (p, st')"
    by (auto simp: getSection_def ebind_Inr)
  show ?thesis
  proof (cases "truthy options")
    case False
    with c show ?thesis by (simp add: run_steps_getPartial)
  next
    case True
    with c obtain os where os: "options = Some (JArr os)"
      by (auto split: option.splits json.splits)
    obtain selected st1 where s: "randomFromArray e os st = (selected, st1)"
      by (cases "randomFromArray e os st")
    with c True os have "getSection_selected e originalType typeObj pre selected st1 = Inr (p, st')"
      by simp
    from run_steps_getSection_selected[OF this] run_steps_randomFromArray'[OF s]
    show ?thesis by (blast intro: run_steps_trans)
  qed
qed

lemma run_steps_Math_random: "run_steps e st (snd (Math_random e st))"
  by (rule run_steps.draw[OF run_steps.here])

lemma process_tokens_skip:
  "take 1 token = ''*'' \<Longrightarrow> fst (Math_random e st) \<ge> 1 / 6 \<Longrightarrow>
     process_tokens e (token # rest) parts protagonist st =
     process_tokens e rest parts protagonist (snd (Math_random e st))"
  by (simp only: process_tokens.simps simp_thms if_True)

lemma process_tokens_section:
  "take 1 token = ''?'' \<Longrightarrow>
     process_tokens e (token # rest) parts protagonist st =
     (case getSection e (drop 1 token) protagonist st of
        Inl err \<Rightarrow> Some (Inl err)
      | Inr (sec, st1) \<Rightarrow>
          process_tokens e rest (parts @ [p_text sec])
            (if drop 1 token = ''protagonists''
             then \<lparr>pre_gender = p_gender sec, pre_number = p_number sec\<rparr>
             else protagonist)
            st1)"
  by (subst process_tokens.simps) simp

lemma process_tokens_word:
  assumes "take 1 token \<noteq> ''?''"
    and "\<not> (take 1 token = ''*'' \<and> fst (Math_random e st) \<ge> 1 / 6)"
    and "tok = (if take 1 token = ''*'' then drop 1 token else token)"
    and "st0 = (if take 1 token = ''*'' then snd (Math_random e st) else st)"
  shows "process_tokens e (token # rest) parts protagonist st =
     (case getProp (Some (data e)) tok of
        Inl err \<Rightarrow> Some (Inl err)
      | Inr category \<Rightarrow>
          if truthy category
          then (case getRandomWord e tok st0 of
                  None \<Rightarrow> None
                | Some (Inl err) \<Rightarrow> Some (Inl err)
                | Some (Inr (w, st1)) \<Rightarrow> process_tokens e rest (parts @ [w]) protagonist st1)
          else process_tokens e rest (parts @ [Some tok]) protagonist st0)"
  using assms(1,2) unfolding assms(3,4)
  by (subst process_tokens.simps) (simp only: if_False Let_def)

lemma run_steps_process_tokens:
  "process_tokens e tokens parts protagonist st = Some (Inr (r, st')) \<Longrightarrow> run_steps e st st'"
proof (induction tokens arbitrary: parts protagonist st)
  case Nil
  then show ?case by (simp add: run_steps.here)
next
  case (Cons token rest)
  show ?case
  proof (cases "take 1 token = ''*'' \<and> fst (Math_random e st) \<ge> 1 / 6")
    case True
    then have "process_tokens e rest parts protagonist (snd (Math_random e st)) = Some (Inr (r, st'))"
      using Cons.prems process_tokens_skip[of token e st rest parts protagonist] by simp
    from Cons.IH[OF this] run_steps_Math_random show ?thesis by (blast intro: run_steps_trans)
  next
    case skip: False
    show ?thesis
    proof (cases "take 1 token = ''?''")
      case True
      from Cons.prems[unfolded process_tokens_section[OF True]] obtain sec st1 prot' where
        "getSection e (drop 1 token) protagonist st = Inr (sec, st1)"
        "process_tokens e rest (parts @ [p_text sec]) prot' st1 = Some (Inr (r, st'))"
        by (auto split: sum.splits)
      with Cons.IH run_steps_getSection show ?thesis by (blast intro: run_steps_trans)
    next
      case False
      define tok where "tok = (if take 1 token = ''*'' then drop 1 token else token)"
      define st0 where "st0 = (if take 1 token = ''*'' then snd (Math_random e st) else st)"
      have s0: "run_steps e st st0"
        by (simp add: st0_def run_steps.here run_steps_Math_random)
      from Cons.prems[unfolded process_tokens_word[OF False skip tok_def st0_def]]
      obtain category where
        c: "(if truthy category
             then (case getRandomWord e tok st0 of
                     None \<Rightarrow> None
                   | Some (Inl err) \<Rightarrow> Some (Inl err)
                   | Some (Inr (w, st1)) \<Rightarrow> process_tokens e rest (parts @ [w]) protagonist st1)
             else process_tokens e rest (parts @ [Some tok]) protagonist st0) = Some (Inr (r, st'))"
        by (auto split: sum.splits)
      show ?thesis
      proof (cases "truthy category")
        case True
        with c obtain w st1 where
          w: "getRandomWord e tok st0 = Some (Inr (w, st1))" and
          p: "process_tokens e rest (parts @ [w]) protagonist st1 = Some (Inr (r, st'))"
          by (auto split: option.splits sum.splits)
        from run_steps.word[OF run_steps.here w] s0 Cons.IH[OF p] show ?thesis
          by (blast intro: run_steps_trans)
      next
        case False
        with c have "process_tokens e rest (parts @ [Some tok]) protagonist st0 = Some (Inr (r, st'))"
          by simp
        from Cons.IH[OF this] s0 show ?thesis by (blast intro: run_steps_trans)
      qed
    qed
  qed
qed

lemma pick_structure_Inr:
  assumes "pick_structure e st = Inr (toks, st1)"
  shows "st1 = st\<lparr>pos := Suc (pos st)\<rparr>"
proof -
  from assms obtain ss where
    ss: "(case ss of
        None \<Rightarrow> Inl TypeError
      | Some JNull \<Rightarrow> Inl TypeError
      | Some (JArr structures) \<Rightarrow>
          (let (x, st1) = randomFromArray e structures st
           in ebind (string_array_map x) (\<lambda>tokens. Inr (tokens, st1)))
      | Some v \<Rightarrow> Inl Unmodelled) = Inr (toks, st1)"
    unfolding pick_structure_def ebind_Inr by blast
  then obtain structures where "ss = Some (JArr structures)"
    by (cases ss; cases "the ss") simp_all
  with ss show ?thesis
    by (simp add: randomFromArray_eq ebind_Inr)
qed

lemma run_steps_generateSentence:
  assumes "generateSentence e st = Some (Inr (s, st'))"
  shows "run_steps e st st'"
proof -
  obtain toks st1 where p: "pick_structure e st = Inr (toks, st1)"
    using assms by (cases "pick_structure e st") (auto simp: generateSentence_def)
  from assms p obtain parts where
    t: "process_tokens e toks [] \<lparr>pre_gender = Some [], pre_number = Some []\<rparr> st1
          = Some (Inr (parts, st'))"
    by (simp add: generateSentence_def split: option.splits sum.splits prod.splits)
  have "run_steps e st st1"
    using pick_structure_Inr[OF p] run_steps_Math_random[of e st] by (simp add: Math_random_def)
  with run_steps_process_tokens[OF t]
  show ?thesis by (blast intro: run_steps_trans)
qed

lemma run_steps_Array_from:
  assumes f: "\<And>s x s'. f s = Some (Inr (x, s')) \<Longrightarrow> run_steps e s s'"
  shows "Array_from n f st = Some (Inr (xs, st')) \<Longrightarrow> run_steps e st st'"
proof (induction n arbitrary: st xs)
  case 0
  then show ?case by (simp add: run_steps.here)
next
  case (Suc n)
  from Suc.prems obtain x st1 xs' where
    "f st = Some (Inr (x, st1))" "Array_from n f st1 = Some (Inr (xs', st'))"
    by (auto split: option.splits sum.splits)
  with Suc.IH f show ?case by (blast intro: run_steps_trans)
qed

lemma run_steps_generateParagraph:
  assumes "generateParagraph e st = Some (Inr (s, st'))"
  shows "run_steps e st st'"
proof -
  obtain n st1 where n: "random_between e 2 8 st = (n, st1)" by (cases "random_between e 2 8 st")
  then have s1: "st1 = snd (Math_random e st)"
    by (auto simp: random_between_def split: prod.splits)
  from assms n obtain sentences where
    a: "Array_from n (generateSentence e) st1 = Some (Inr (sentences, st'))"
    by (auto simp: generateParagraph_def split: option.splits sum.splits)
  have "run_steps e st1 st'"
    by (rule run_steps_Array_from[where f = "generateSentence e", OF run_steps_generateSentence a])
  with s1 run_steps_Math_random[of e st]
  show ?thesis by (auto intro: run_steps_trans)
qed

lemma run_steps_randomWordFromPool:
  assumes "randomWordFromPool e st = Inr (w, st')"
  shows "run_steps e st st'"
proof -
  obtain item st1 where i: "randomFromArray e (wordsArr e) st = (item, st1)"
    by (cases "randomFromArray e (wordsArr e) st")
  with assms obtain it where "randomFromArray e (split_on CHR '' '' it) st1 = (w, st')"
    by (auto simp: randomWordFromPool_def split: option.splits)
  from run_steps_randomFromArray'[OF this] run_steps_randomFromArray'[OF i]
  show ?thesis by (blast intro: run_steps_trans)
qed

lemma run_steps_getLoremIpsum:
  "getLoremIpsum e ty st = Some (Inr (u, st')) \<Longrightarrow> run_steps e st st'"
  by (cases ty)
     (auto split: option.splits sum.splits
           dest: run_steps_generateSentence run_steps_generateParagraph run_steps_randomWordFromPool)

text \<open>A whole generation run is made of these steps, after the two memories are cleared.\<close>

lemma run_steps_generate_units:
  "generate_units e s st = Some (Inr (units, st'))
     \<Longrightarrow> run_steps e (st\<lparr>usedDictionary := {}, usedWords := []\<rparr>) st'"
proof -
  assume "generate_units e s st = Some (Inr (units, st'))"
  then obtain n where
    a: "Array_from n (getLoremIpsum e (s_type s)) (st\<lparr>usedDictionary := {}, usedWords := []\<rparr>)
          = Some (Inr (units, st'))"
    by (auto simp: generate_units_def split: sum.splits)
  show ?thesis
    by (rule run_steps_Array_from[where f = "getLoremIpsum e (s_type s)", OF run_steps_getLoremIpsum a])
qed

section \<open>C6: the recent-index memory\<close>

text \<open>
  Claim C6.  In a run that starts with cleared memories, for every category: the
  memory never holds more than 4 indices; it is the last four accepted indices of the
  category (the oldest is dropped first); in the history of the accepted indices no
  index repeats within any window of 5 consecutive draws; and the index a draw
  accepts, which is the index of the word it returns, is not in the memory at that
  moment and is pushed on it.  This holds for every pool size, so in particular for
  pools of at least 6 entries.
\<close>

theorem recent_indices_window:
  assumes "run_hist e ty st0 h st" and "usedWords st0 = []"
  shows "length (used_of st ty) \<le> 4
     \<and> used_of st ty = drop (length h - 4) h
     \<and> (\<forall>k. distinct (take 5 (drop k h)))
     \<and> (\<forall>w st'. getRandomWord e ty st = Some (Inr (w, st')) \<longrightarrow>
          last (used_of st' ty) \<notin> set (used_of st ty)
          \<and> used_of st' ty = push_used (used_of st ty) (last (used_of st' ty))
          \<and> (\<exists>list. pool_of (data e) ty = Inr list \<and> w = nth_opt list (last (used_of st' ty))))"
proof -
  from run_hist_inv[OF assms] have
    u: "used_of st ty = drop (length h - 4) h" and win: "\<forall>k. distinct (take 5 (drop k h))"
    by simp_all
  from u have "length (used_of st ty) \<le> 4" by simp
  with u win getRandomWord_accepted_index show ?thesis by blast
qed


text \<open>
  Six draws from the six places under the sevenths accept the indices 0 to 5 (the
  second draw redraws once); the memory is then \<open>[2, 3, 4, 5]\<close>, and the seventh draw
  accepts index 0 again, five draws after its first use.
\<close>

theorem recent_indices_window_witness:
  "run_hist (example_env town_store [] sevenths) ''place'' (cleared 0) [0, 1, 2, 3, 4, 5]
      \<lparr>usedWords = [(''place'', [2, 3, 4, 5])], usedDictionary = {}, pos = 7\<rparr>
   \<and> usedWords (cleared 0) = []
   \<and> used_of \<lparr>usedWords = [(''place'', [2, 3, 4, 5])], usedDictionary = {}, pos = 7\<rparr> ''place''
        = drop 2 [0, 1, 2, 3, 4, 5]
   \<and> (\<forall>k. distinct (take 5 (drop k [0, 1, 2, 3, 4, 5 :: nat])))
   \<and> getRandomWord (example_env town_store [] sevenths) ''place''
        \<lparr>usedWords = [(''place'', [2, 3, 4, 5])], usedDictionary = {}, pos = 7\<rparr>
      = Some (Inr (Some ''saloon'',
          \<lparr>usedWords = [(''place'', [3, 4, 5, 0])], usedDictionary = {}, pos = 8\<rparr>))
   \<and> last (used_of \<lparr>usedWords = [(''place'', [3, 4, 5, 0])], usedDictionary = {}, pos = 8\<rparr> ''place'')
        \<notin> set (used_of \<lparr>usedWords = [(''place'', [2, 3, 4, 5])], usedDictionary = {}, pos = 7\<rparr> ''place'')"
proof -
  let ?e = "example_env town_store [] sevenths"
  let ?S = "\<lambda>u p. \<lparr>usedWords = [(''place'', u)], usedDictionary = {}, pos = p\<rparr>"
  note ev = getRandomWord_def getRandomWord_from.simps example_env_def pool_place cleared_def
    used_of_def push_used_def nth_opt_def floor_index_def sevenths_def Let_def
  have d1: "getRandomWord ?e ''place'' (cleared 0) = Some (Inr (Some ''saloon'', ?S [0] 1))"
    by (simp add: ev)
  have d2: "getRandomWord ?e ''place'' (?S [0] 1) = Some (Inr (Some ''ranch'', ?S [0, 1] 3))"
    by (simp add: ev)
  have d3: "getRandomWord ?e ''place'' (?S [0, 1] 3) = Some (Inr (Some ''canyon'', ?S [0, 1, 2] 4))"
    by (simp add: ev)
  have d4: "getRandomWord ?e ''place'' (?S [0, 1, 2] 4) = Some (Inr (Some ''mesa'', ?S [0, 1, 2, 3] 5))"
    by (simp add: ev)
  have d5: "getRandomWord ?e ''place'' (?S [0, 1, 2, 3] 5) = Some (Inr (Some ''gulch'', ?S [1, 2, 3, 4] 6))"
    by (simp add: ev)
  have d6: "getRandomWord ?e ''place'' (?S [1, 2, 3, 4] 6) = Some (Inr (Some ''corral'', ?S [2, 3, 4, 5] 7))"
    by (simp add: ev)
  have d7: "getRandomWord ?e ''place'' (?S [2, 3, 4, 5] 7) = Some (Inr (Some ''saloon'', ?S [3, 4, 5, 0] 8))"
    by (simp add: ev)
  have r1: "run_hist ?e ''place'' (cleared 0) [0] (?S [0] 1)"
    using run_hist.same[OF run_hist.start d1] by (simp add: used_of_def)
  have r2: "run_hist ?e ''place'' (cleared 0) [0, 1] (?S [0, 1] 3)"
    using run_hist.same[OF r1 d2] by (simp add: used_of_def)
  have r3: "run_hist ?e ''place'' (cleared 0) [0, 1, 2] (?S [0, 1, 2] 4)"
    using run_hist.same[OF r2 d3] by (simp add: used_of_def)
  have r4: "run_hist ?e ''place'' (cleared 0) [0, 1, 2, 3] (?S [0, 1, 2, 3] 5)"
    using run_hist.same[OF r3 d4] by (simp add: used_of_def)
  have r5: "run_hist ?e ''place'' (cleared 0) [0, 1, 2, 3, 4] (?S [1, 2, 3, 4] 6)"
    using run_hist.same[OF r4 d5] by (simp add: used_of_def)
  have r6: "run_hist ?e ''place'' (cleared 0) [0, 1, 2, 3, 4, 5] (?S [2, 3, 4, 5] 7)"
    using run_hist.same[OF r5 d6] by (simp add: used_of_def)
  have c: "usedWords (cleared 0) = []" by (simp add: cleared_def)
  from recent_indices_window[OF r6 c] d7 r6 c show ?thesis
    by (simp add: used_of_def)
qed

section \<open>C7: the value dictionary\<close>

lemma floor_index_less:
  assumes "0 \<le> u" "u < 1" "0 < n"
  shows "floor_index u n < n"
proof -
  have "u * real n < real n" using assms by simp
  then have "\<lfloor>u * real n\<rfloor> < int n" by (simp add: floor_less_iff)
  moreover have "0 \<le> \<lfloor>u * real n\<rfloor>" using assms by simp
  ultimately have "nat \<lfloor>u * real n\<rfloor> < n" by linarith
  then show ?thesis by (simp add: floor_index_def)
qed

text \<open>
  Claim C7.  On a pool that is not empty, with random numbers in \<open>[0, 1)\<close>, every call of
  \<^verbatim>\<open>getRandomNoRepeat\<close> returns a value of the pool.  It returns its first pick, adds it
  to \<^verbatim>\<open>usedDictionary\<close> and has consumed one random number exactly when that pick is
  absent from the set and longer than 3.  Otherwise it consumes a second random number
  and returns the second pick whatever it is, in the set or not, short or not, and
  leaves the set unchanged.  Hence a value accepted as a first pick is never accepted as
  a first pick again in a later state of the same run.
\<close>

theorem first_pick_accepted_once:
  assumes "arr \<noteq> []" and "\<forall>k. 0 \<le> random e k \<and> random e k < 1"
  shows "floor_index (random e (pos st)) (length arr) < length arr
     \<and> floor_index (random e (Suc (pos st))) (length arr) < length arr
     \<and> getRandomNoRepeat e arr st =
         (if arr ! floor_index (random e (pos st)) (length arr) \<notin> usedDictionary st
             \<and> 3 < length (arr ! floor_index (random e (pos st)) (length arr))
          then Inr (Some (arr ! floor_index (random e (pos st)) (length arr)),
                 st\<lparr>pos := Suc (pos st),
                    usedDictionary := insert (arr ! floor_index (random e (pos st)) (length arr))
                                        (usedDictionary st)\<rparr>)
          else Inr (Some (arr ! floor_index (random e (Suc (pos st))) (length arr)),
                 st\<lparr>pos := Suc (Suc (pos st))\<rparr>))
     \<and> (\<forall>arr' st2 r' st3.
           arr ! floor_index (random e (pos st)) (length arr) \<notin> usedDictionary st
           \<and> 3 < length (arr ! floor_index (random e (pos st)) (length arr))
           \<and> run_steps e
               (st\<lparr>pos := Suc (pos st),
                   usedDictionary := insert (arr ! floor_index (random e (pos st)) (length arr))
                                       (usedDictionary st)\<rparr>) st2
           \<and> getRandomNoRepeat e arr' st2 = Inr (r', st3) \<and> pos st3 = Suc (pos st2)
           \<longrightarrow> r' \<noteq> Some (arr ! floor_index (random e (pos st)) (length arr)))"
proof -
  define i1 where "i1 = floor_index (random e (pos st)) (length arr)"
  define i2 where "i2 = floor_index (random e (Suc (pos st))) (length arr)"
  have l: "0 < length arr" using assms(1) by simp
  have b1: "i1 < length arr" unfolding i1_def using assms(2) l by (intro floor_index_less) simp_all
  have b2: "i2 < length arr" unfolding i2_def using assms(2) l by (intro floor_index_less) simp_all
  have eq: "getRandomNoRepeat e arr st =
         (if arr ! i1 \<notin> usedDictionary st \<and> 3 < length (arr ! i1)
          then Inr (Some (arr ! i1),
                 st\<lparr>pos := Suc (pos st), usedDictionary := insert (arr ! i1) (usedDictionary st)\<rparr>)
          else Inr (Some (arr ! i2), st\<lparr>pos := Suc (Suc (pos st))\<rparr>))"
    using b1 b2 by (simp add: getRandomNoRepeat_cases nth_opt_def i1_def i2_def)
  have never: "r' \<noteq> Some (arr ! i1)"
    if a: "run_steps e
               (st\<lparr>pos := Suc (pos st), usedDictionary := insert (arr ! i1) (usedDictionary st)\<rparr>) st2"
      and b3: "getRandomNoRepeat e arr' st2 = Inr (r', st3)" and p3: "pos st3 = Suc (pos st2)"
    for arr' st2 r' st3
  proof -
    from a have "usedDictionary (st\<lparr>pos := Suc (pos st),
          usedDictionary := insert (arr ! i1) (usedDictionary st)\<rparr>) \<subseteq> usedDictionary st2"
      by (rule run_steps_dict_mono)
    then have in2: "arr ! i1 \<in> usedDictionary st2" by simp
    from getRandomNoRepeat_Inr[OF b3] obtain w' where
      c': "if w' \<notin> usedDictionary st2 \<and> 3 < length w'
         then r' = Some w'
              \<and> st3 = st2\<lparr>pos := Suc (pos st2), usedDictionary := insert w' (usedDictionary st2)\<rparr>
         else r' = nth_opt arr' (floor_index (random e (Suc (pos st2))) (length arr'))
              \<and> st3 = st2\<lparr>pos := Suc (Suc (pos st2))\<rparr>"
      by blast
    have "r' = Some w' \<and> w' \<notin> usedDictionary st2"
      using c' p3 by (cases "w' \<notin> usedDictionary st2 \<and> 3 < length w'") auto
    with in2 show "r' \<noteq> Some (arr ! i1)" by auto
  qed
  from b1 b2 eq never show ?thesis unfolding i1_def i2_def by blast
qed

text \<open>
  Calls on the pool sheriff, kid under the sevenths.  The first accepts sheriff as first
  pick.  The second picks sheriff again, falls back and returns the second pick, which
  is sheriff once more.  A later call picks kid, which is too short, falls back and
  returns the second pick, which is kid: a short value, and the set is unchanged.
\<close>

theorem first_pick_accepted_once_witness:
  "[''sheriff'', ''kid''] \<noteq> []
   \<and> (\<forall>k. 0 \<le> random (example_env town_store [] sevenths) k
          \<and> random (example_env town_store [] sevenths) k < 1)
   \<and> getRandomNoRepeat (example_env town_store [] sevenths) [''sheriff'', ''kid''] (cleared 0)
      = Inr (Some ''sheriff'', \<lparr>usedWords = [], usedDictionary = {''sheriff''}, pos = 1\<rparr>)
   \<and> getRandomNoRepeat (example_env town_store [] sevenths) [''sheriff'', ''kid'']
        \<lparr>usedWords = [], usedDictionary = {''sheriff''}, pos = 1\<rparr>
      = Inr (Some ''sheriff'', \<lparr>usedWords = [], usedDictionary = {''sheriff''}, pos = 3\<rparr>)
   \<and> getRandomNoRepeat (example_env town_store [] sevenths) [''sheriff'', ''kid'']
        \<lparr>usedWords = [], usedDictionary = {''sheriff''}, pos = 5\<rparr>
      = Inr (Some ''kid'', \<lparr>usedWords = [], usedDictionary = {''sheriff''}, pos = 7\<rparr>)
   \<and> run_steps (example_env town_store [] sevenths)
        \<lparr>usedWords = [], usedDictionary = {''sheriff''}, pos = 1\<rparr>
        \<lparr>usedWords = [], usedDictionary = {''sheriff''}, pos = 3\<rparr>
   \<and> getRandomNoRepeat (example_env town_store [] sevenths) [''cowboy'', ''sheriff'']
        \<lparr>usedWords = [], usedDictionary = {''sheriff''}, pos = 3\<rparr>
      = Inr (Some ''cowboy'', \<lparr>usedWords = [], usedDictionary = {''cowboy'', ''sheriff''}, pos = 4\<rparr>)
   \<and> Some ''cowboy'' \<noteq> Some ''sheriff''"
proof -
  let ?e = "example_env town_store [] sevenths"
  let ?arr = "[''sheriff'', ''kid'']"
  let ?arr' = "[''cowboy'', ''sheriff'']"
  let ?S1 = "\<lparr>usedWords = [], usedDictionary = {''sheriff''}, pos = 1\<rparr>"
  let ?S3 = "\<lparr>usedWords = [], usedDictionary = {''sheriff''}, pos = 3\<rparr>"
  let ?S4 = "\<lparr>usedWords = [], usedDictionary = {''cowboy'', ''sheriff''}, pos = 4\<rparr>"
  let ?S5 = "\<lparr>usedWords = [], usedDictionary = {''sheriff''}, pos = 5\<rparr>"
  let ?S7 = "\<lparr>usedWords = [], usedDictionary = {''sheriff''}, pos = 7\<rparr>"
  have ne: "?arr \<noteq> []" by simp
  have rnd: "\<forall>k. 0 \<le> random ?e k \<and> random ?e k < 1"
    by (simp add: example_env_def sevenths_def)
  note T0 = first_pick_accepted_once[OF ne rnd, of "cleared 0"]
  note T1 = first_pick_accepted_once[OF ne rnd, of ?S1]
  note T5 = first_pick_accepted_once[OF ne rnd, of ?S5]
  note ev = example_env_def cleared_def floor_index_def sevenths_def
  from T0 have c1: "getRandomNoRepeat ?e ?arr (cleared 0) = Inr (Some ''sheriff'', ?S1)"
    by (simp add: ev)
  from T1 have c2: "getRandomNoRepeat ?e ?arr ?S1 = Inr (Some ''sheriff'', ?S3)"
    by (simp add: ev)
  from T5 have c5: "getRandomNoRepeat ?e ?arr ?S5 = Inr (Some ''kid'', ?S7)"
    by (simp add: ev)
  have c3: "getRandomNoRepeat ?e ?arr' ?S3 = Inr (Some ''cowboy'', ?S4)"
    by (simp add: getRandomNoRepeat_cases nth_opt_def ev)
  have r: "run_steps ?e ?S1 ?S3"
    using run_steps.val[OF run_steps.here c2] .
  from T0 have n: "\<forall>arr' st2 r' st3.
           ?arr ! floor_index (random ?e (pos (cleared 0))) (length ?arr) \<notin> usedDictionary (cleared 0)
           \<and> 3 < length (?arr ! floor_index (random ?e (pos (cleared 0))) (length ?arr))
           \<and> run_steps ?e
               ((cleared 0)\<lparr>pos := Suc (pos (cleared 0)),
                   usedDictionary := insert (?arr ! floor_index (random ?e (pos (cleared 0))) (length ?arr))
                                       (usedDictionary (cleared 0))\<rparr>) st2
           \<and> getRandomNoRepeat ?e arr' st2 = Inr (r', st3) \<and> pos st3 = Suc (pos st2)
           \<longrightarrow> r' \<noteq> Some (?arr ! floor_index (random ?e (pos (cleared 0))) (length ?arr))"
    by blast
  have "Some ''cowboy'' \<noteq> Some ''sheriff''"
    using n[rule_format, of ?S3 ?arr' "Some ''cowboy''" ?S4] r c3
    by (simp add: ev)
  with ne rnd c1 c2 c5 c3 r show ?thesis by blast
qed

section \<open>C8: merging the partials of a compound section\<close>

lemma run_steps_hist: "run_steps e st st' \<Longrightarrow> \<exists>h. run_hist e ty st h st'"
proof (induction rule: run_steps.induct)
  case here
  show ?case by (blast intro: run_hist.start)
next
  case (draw st1)
  then show ?case by (blast intro: run_hist.draw)
next
  case (word st1 ty' w st2)
  then show ?case by (cases "ty' = ty") (blast intro: run_hist.same run_hist.other)+
next
  case (val st1 arr v st2)
  then show ?case by (blast intro: run_hist.val)
qed

lemma merge_loop_result:
  assumes "\<forall>a\<in>set rest. p_text a \<noteq> None" and "p_text base \<noteq> None"
  shows "merge_loop e sep base rest st =
     Inr (base\<lparr>p_gender := (if \<forall>a\<in>set rest. p_gender a = p_gender base
                              then p_gender base else Some ''m''),
               p_text := Some (the (p_text base) @
                  concat (map (\<lambda>(k, a). js_string (nth_opt sep (floor_index (random e k) (length sep)))
                                          @ the (p_text a))
                              (enumerate (pos st) rest)))\<rparr>,
          st\<lparr>pos := pos st + length rest\<rparr>)"
  using assms
proof (induction rest arbitrary: base st)
  case Nil
  then show ?case by simp
next
  case (Cons a rest)
  from Cons.prems obtain ta tb where ta: "p_text a = Some ta" and tb: "p_text base = Some tb"
    by auto
  define base1 where "base1 = (if p_gender a \<noteq> p_gender base then base\<lparr>p_gender := Some ''m''\<rparr> else base)"
  define s where "s = nth_opt sep (floor_index (random e (pos st)) (length sep))"
  define base2 where "base2 = base1\<lparr>p_text := Some (tb @ js_string s @ ta)\<rparr>"
  have step: "merge_loop e sep base (a # rest) st = merge_loop e sep base2 rest (st\<lparr>pos := Suc (pos st)\<rparr>)"
    using ta tb by (simp add: randomFromArray_eq base1_def base2_def s_def js_string_def)
  have t2: "p_text base2 \<noteq> None" by (simp add: base2_def)
  have r: "\<forall>a\<in>set rest. p_text a \<noteq> None" using Cons.prems by simp
  have g2: "p_gender base2 = (if p_gender a \<noteq> p_gender base then Some ''m'' else p_gender base)"
    by (simp add: base2_def base1_def)
  show ?case
    unfolding step Cons.IH[OF r t2]
    using ta tb by (auto simp: base2_def base1_def s_def)
qed

lemma getPartial_fields:
  assumes "getPartial e ty pre st = Inr (p, st')"
  shows "p_text p \<noteq> None \<and> p_gender p \<noteq> None \<and> p_type p = ty"
proof -
  obtain gender st1 where g: "pick_gender e pre st = (gender, st1)" by (cases "pick_gender e pre st")
  from assms g obtain numbers tg cats where
    rest: "(let (number, st2) = pick_number e pre numbers st1 in
           ebind (getProp tg (js_string number)) (\<lambda>obj.
           ebind cats (\<lambda>cats.
           ebind (partial_texts e obj cats st2) (\<lambda>(texts, st3).
             Inr (\<lparr>p_type = ty, p_text = Some (join_sp (filter_Boolean texts)),
                    p_gender = Some gender, p_number = number\<rparr>, st3))))) = Inr (p, st')"
    by (auto simp: getPartial_def ebind_Inr)
  obtain number st2 where n: "pick_number e pre numbers st1 = (number, st2)"
    by (cases "pick_number e pre numbers st1")
  from rest n show ?thesis by (auto simp: ebind_Inr)
qed

lemma map_getPartial_texts:
  "map_getPartial e ts pre st = Inr (ps, st') \<Longrightarrow> \<forall>p\<in>set ps. p_text p \<noteq> None"
proof (induction ts arbitrary: st ps)
  case Nil
  then show ?case by simp
next
  case (Cons t ts)
  from Cons.prems obtain p st1 ps' where
    "getPartial e t pre st = Inr (p, st1)" "map_getPartial e ts pre st1 = Inr (ps', st')" "ps = p # ps'"
    by (auto split: sum.splits)
  with Cons.IH getPartial_fields show ?case by auto
qed

text \<open>
  Claim C8.  A merge of two or more partials (each with a text, as \<^verbatim>\<open>getPartial\<close>
  returns them) whose section type has a separator pool succeeds and consumes one random
  number per subsequent partial.  The merged gender is the first partial's gender when
  every subsequent partial has it, and masculine otherwise (this is when some partial
  differs from the running gender at its turn); the merged number is \<^verbatim>\<open>plural\<close>; the
  merged type is the section type given; the merged text is the first text followed,
  for each subsequent partial in order, by the separator drawn from the pool and that
  partial's text.  A separator drawn from a non-empty pool is an entry of the pool.
\<close>

theorem mergePartials_compound:
  assumes "rest \<noteq> []"
    and "\<forall>a\<in>set (a0 # rest). p_text a \<noteq> None"
    and "ebind (getProp typeObj ''sep'') string_array = Inr sep"
  shows "\<exists>b. mergePartials e (a0 # rest) ty typeObj st = Inr (b, st\<lparr>pos := pos st + length rest\<rparr>)
     \<and> p_type b = ty
     \<and> p_number b = Some ''plural''
     \<and> p_gender b = (if \<forall>a\<in>set rest. p_gender a = p_gender a0 then p_gender a0 else Some ''m'')
     \<and> p_text b = Some (the (p_text a0) @
          concat (map (\<lambda>(k, a). js_string (nth_opt sep (floor_index (random e k) (length sep)))
                                  @ the (p_text a))
                      (enumerate (pos st) rest)))
     \<and> (sep \<noteq> [] \<and> (\<forall>k. 0 \<le> random e k \<and> random e k < 1) \<longrightarrow>
          (\<forall>k. nth_opt sep (floor_index (random e k) (length sep)) \<in> Some ` set sep))"
proof -
  have r: "\<forall>a\<in>set rest. p_text a \<noteq> None" and t0: "p_text a0 \<noteq> None"
    using assms(2) by simp_all
  have "sep \<noteq> [] \<and> (\<forall>k. 0 \<le> random e k \<and> random e k < 1) \<longrightarrow>
          (\<forall>k. nth_opt sep (floor_index (random e k) (length sep)) \<in> Some ` set sep)"
    using floor_index_less[of _ "length sep"] by (auto simp: nth_opt_def)
  then show ?thesis
    using assms(1,3) by (simp add: mergePartials_def merge_loop_result[OF r t0] ebind_def)
qed

text \<open>Three partials of genders f, m, f and a pool of two separators.\<close>

theorem mergePartials_compound_witness:
  "mergePartials (example_env plain_store [] sevenths) posse ''protagonists''
      (Some (JObj [(''sep'', JArr [JStr '' and '', JStr '', ''])])) (cleared 5)
    = Inr (\<lparr>p_type = ''protagonists'', p_text = Some ''the sheriff, the cowboy, the kid'',
             p_gender = Some ''m'', p_number = Some ''plural''\<rparr>,
           \<lparr>usedWords = [], usedDictionary = {}, pos = 7\<rparr>)"
proof -
  let ?e = "example_env plain_store [] sevenths"
  let ?t = "Some (JObj [(''sep'', JArr [JStr '' and '', JStr '', ''])])"
  let ?a0 = "\<lparr>p_type = ''hero'', p_text = Some ''the sheriff'', p_gender = Some ''f'', p_number = Some ''singular''\<rparr>"
  let ?rest = "[\<lparr>p_type = ''hero'', p_text = Some ''the cowboy'', p_gender = Some ''m'', p_number = Some ''singular''\<rparr>,
     \<lparr>p_type = ''hero'', p_text = Some ''the kid'', p_gender = Some ''f'', p_number = Some ''plural''\<rparr>]"
  have 1: "?rest \<noteq> []" by simp
  have 2: "\<forall>a\<in>set (?a0 # ?rest). p_text a \<noteq> None" by simp
  have 3: "ebind (getProp ?t ''sep'') string_array = Inr ['' and '', '', '']" by (simp add: ebind_def)
  from mergePartials_compound[OF 1 2 3, of ?e "''protagonists''" "cleared 5"]
  obtain b where
    m: "mergePartials ?e (?a0 # ?rest) ''protagonists'' ?t (cleared 5)
         = Inr (b, (cleared 5)\<lparr>pos := pos (cleared 5) + length ?rest\<rparr>)" and
    ty: "p_type b = ''protagonists''" and nu: "p_number b = Some ''plural''" and
    ge: "p_gender b = (if \<forall>a\<in>set ?rest. p_gender a = p_gender ?a0 then p_gender ?a0 else Some ''m'')" and
    te: "p_text b = Some (the (p_text ?a0) @
          concat (map (\<lambda>(k, a). js_string (nth_opt ['' and '', '', '']
                    (floor_index (random ?e k) (length ['' and '', '', ''])))
                                  @ the (p_text a))
                      (enumerate (pos (cleared 5)) ?rest)))"
    by blast
  have b: "b = \<lparr>p_type = ''protagonists'', p_text = Some ''the sheriff, the cowboy, the kid'',
             p_gender = Some ''m'', p_number = Some ''plural''\<rparr>"
    using ty nu ge te by (cases b) (simp add: ev)
  show ?thesis using m unfolding b by (simp add: posse_def cleared_def)
qed

section \<open>C1: the units of a generation run\<close>

lemma sentence_plain:
  "generateSentence (example_env plain_store [] (\<lambda>i. 0)) \<lparr>usedWords = [], usedDictionary = {}, pos = n\<rparr>
    = Some (Inr (''Howdy partner'', \<lparr>usedWords = [], usedDictionary = {}, pos = Suc n\<rparr>))"
  by (simp add: ev)

subsection \<open>Every run ends\<close>

lemma process_tokens_ends: "\<exists>r. process_tokens e toks parts protagonist st = Some r"
proof (induction toks arbitrary: parts protagonist st)
  case Nil
  show ?case by simp
next
  case (Cons token rest)
  show ?case
  proof (cases "take 1 token = ''*'' \<and> fst (Math_random e st) \<ge> 1 / 6")
    case True
    then have "process_tokens e (token # rest) parts protagonist st =
        process_tokens e rest parts protagonist (snd (Math_random e st))"
      using process_tokens_skip[of token e st rest parts protagonist] by simp
    with Cons.IH show ?thesis by simp
  next
    case skip: False
    show ?thesis
    proof (cases "take 1 token = ''?''")
      case True
      note eq = process_tokens_section[OF True, of e rest parts protagonist st]
      show ?thesis
      proof (cases "getSection e (drop 1 token) protagonist st")
        case (Inl err)
        then show ?thesis unfolding eq by simp
      next
        case (Inr p)
        obtain sec st1 where p: "p = (sec, st1)" by (cases p)
        from Cons.IH obtain r where "process_tokens e rest (parts @ [p_text sec])
            (if drop 1 token = ''protagonists''
             then \<lparr>pre_gender = p_gender sec, pre_number = p_number sec\<rparr>
             else protagonist) st1 = Some r" by blast
        with Inr p show ?thesis unfolding eq by simp
      qed
    next
      case False
      define tok where "tok = (if take 1 token = ''*'' then drop 1 token else token)"
      define st0 where "st0 = (if take 1 token = ''*'' then snd (Math_random e st) else st)"
      note eq = process_tokens_word[OF False skip tok_def st0_def, of rest parts protagonist]
      show ?thesis
      proof (cases "getProp (Some (data e)) tok")
        case (Inl err)
        then show ?thesis unfolding eq by simp
      next
        case c: (Inr category)
        show ?thesis
        proof (cases "truthy category")
          case True
          from getRandomWord_total obtain r where r: "getRandomWord e tok st0 = Some r" by blast
          show ?thesis
          proof (cases r)
            case (Inl err)
            with r c True show ?thesis unfolding eq by simp
          next
            case (Inr p)
            obtain w st1 where p: "p = (w, st1)" by (cases p)
            from Cons.IH obtain r' where "process_tokens e rest (parts @ [w]) protagonist st1 = Some r'"
              by blast
            with r c True Inr p show ?thesis unfolding eq by simp
          qed
        next
          case False
          from Cons.IH obtain r' where
            "process_tokens e rest (parts @ [Some tok]) protagonist st0 = Some r'" by blast
          with c False show ?thesis unfolding eq by simp
        qed
      qed
    qed
  qed
qed

lemma generateSentence_ends: "\<exists>r. generateSentence e st = Some r"
proof (cases "pick_structure e st")
  case (Inl err)
  then show ?thesis by (simp add: generateSentence_def)
next
  case (Inr p)
  obtain toks st1 where p: "p = (toks, st1)" by (cases p)
  from process_tokens_ends obtain r where
    r: "process_tokens e toks [] \<lparr>pre_gender = Some [], pre_number = Some []\<rparr> st1 = Some r" by blast
  show ?thesis
  proof (cases r)
    case (Inl err)
    with Inr p r show ?thesis by (simp add: generateSentence_def)
  next
    case r2: (Inr q)
    obtain parts st2 where "q = (parts, st2)" by (cases q)
    with Inr p r r2 show ?thesis by (simp add: generateSentence_def)
  qed
qed

lemma Array_from_ends:
  assumes f: "\<And>s. \<exists>r. f s = Some r"
  shows "\<exists>r. Array_from n f st = Some r"
proof (induction n arbitrary: st)
  case 0
  show ?case by simp
next
  case (Suc n)
  from f obtain r where r: "f st = Some r" by blast
  show ?case
  proof (cases r)
    case (Inl err)
    with r show ?thesis by simp
  next
    case (Inr p)
    obtain x st1 where p: "p = (x, st1)" by (cases p)
    from Suc.IH obtain r' where r': "Array_from n f st1 = Some r'" by blast
    show ?thesis
    proof (cases r')
      case (Inl err)
      with r Inr p r' show ?thesis by simp
    next
      case r2: (Inr q)
      obtain xs st2 where "q = (xs, st2)" by (cases q)
      with r Inr p r' r2 show ?thesis by simp
    qed
  qed
qed

lemma generateParagraph_ends: "\<exists>r. generateParagraph e st = Some r"
proof -
  obtain k st1 where k: "random_between e 2 8 st = (k, st1)" by (cases "random_between e 2 8 st")
  from Array_from_ends[where f = "generateSentence e", OF generateSentence_ends]
  obtain r where r: "Array_from k (generateSentence e) st1 = Some r" by blast
  show ?thesis
  proof (cases r)
    case (Inl err)
    with k r show ?thesis by (simp add: generateParagraph_def)
  next
    case (Inr q)
    obtain xs st2 where "q = (xs, st2)" by (cases q)
    with k r Inr show ?thesis by (simp add: generateParagraph_def)
  qed
qed

lemma getLoremIpsum_ends: "\<exists>r. getLoremIpsum e ty st = Some r"
proof (cases ty)
  case Paragraphs
  then show ?thesis by (simp add: generateParagraph_ends)
next
  case Sentences
  from generateSentence_ends obtain r where r: "generateSentence e st = Some r" by blast
  show ?thesis
  proof (cases r)
    case (Inl err)
    with r Sentences show ?thesis by simp
  next
    case (Inr q)
    obtain x st1 where "q = (x, st1)" by (cases q)
    with r Inr Sentences show ?thesis by simp
  qed
next
  case Words
  show ?thesis
  proof (cases "randomWordFromPool e st")
    case (Inl err)
    with Words show ?thesis by simp
  next
    case (Inr q)
    obtain x st1 where "q = (x, st1)" by (cases q)
    with Inr Words show ?thesis by simp
  qed
next
  case Lists
  from generateSentence_ends obtain r where r: "generateSentence e st = Some r" by blast
  show ?thesis
  proof (cases r)
    case (Inl err)
    with r Lists show ?thesis by simp
  next
    case (Inr q)
    obtain x st1 where "q = (x, st1)" by (cases q)
    with r Inr Lists show ?thesis by simp
  qed
qed

lemma generate_units_ends: "\<exists>r. generate_units e s st = Some r"
proof (cases "array_length (s_nbr s)")
  case (Inl err)
  then show ?thesis by (simp add: generate_units_def)
next
  case (Inr m)
  from Array_from_ends[where f = "getLoremIpsum e (s_type s)", OF getLoremIpsum_ends]
  obtain r where "Array_from m (getLoremIpsum e (s_type s)) (st\<lparr>usedDictionary := {}, usedWords := []\<rparr>) = Some r"
    by blast
  with Inr show ?thesis by (simp add: generate_units_def)
qed

subsection \<open>Runs that produce their units\<close>

lemma length_push_used: "length used \<le> 4 \<Longrightarrow> length (push_used used i) \<le> 4"
  by (simp add: push_used_def)

lemma getRandomWord_short:
  assumes "getRandomWord e ty st = Some (Inr (w, st'))" and "\<forall>t. length (used_of st t) \<le> 4"
  shows "\<forall>t. length (used_of st' t) \<le> 4"
proof
  fix t
  from getRandomWord_Inr[OF assms(1)] obtain i p where
    st': "st' = st\<lparr>pos := p, usedWords := AList.update ty (push_used (used_of st ty) i) (usedWords st)\<rparr>"
    by blast
  have "used_of st' t = (if t = ty then push_used (used_of st ty) i else used_of st t)"
    unfolding st' by (simp add: used_of_def update_conv')
  with assms(2) length_push_used[of "used_of st ty" i] show "length (used_of st' t) \<le> 4"
    by simp
qed

lemma getRandomWord_fresh_returns:
  assumes "pool_of (data e) ty = Inr list" and "fresh_in_reach e (length list)"
    and "length (used_of st ty) \<le> 4"
  shows "\<exists>w st'. getRandomWord e ty st = Some (Inr (w, st'))"
proof -
  let ?ok = "\<lambda>k. floor_index (random e (pos st + k)) (length list) \<notin> set (used_of st ty)"
  from assms(2,3) have "\<exists>k\<le>callStack e. ?ok k"
    unfolding fresh_in_reach_def by blast
  from first_fresh[of "callStack e" ?ok, OF this] obtain k where
    k: "k \<le> callStack e" "?ok k" "\<forall>j<k. \<not> ?ok j" by blast
  then have lt: "\<forall>j<k. floor_index (random e (pos st + j)) (length list) \<in> set (used_of st ty)"
    by simp
  from getRandomWord_returns[OF assms(1) lt k(2) k(1)] show ?thesis by simp
qed

lemma process_tokens_total:
  assumes "\<forall>t\<in>set toks. word_token e t" and "\<forall>t. length (used_of st t) \<le> 4"
  shows "\<exists>parts' st'. process_tokens e toks parts protagonist st = Some (Inr (parts', st'))
           \<and> (\<forall>t. length (used_of st' t) \<le> 4)"
  using assms
proof (induction toks arbitrary: parts st)
  case Nil
  then show ?case by simp
next
  case (Cons token rest)
  from Cons.prems(1) have wt: "word_token e token" and wr: "\<forall>t\<in>set rest. word_token e t"
    by simp_all
  have inv1: "\<forall>t. length (used_of (snd (Math_random e st)) t) \<le> 4"
    using Cons.prems(2) by simp
  show ?case
  proof (cases "take 1 token = ''*'' \<and> fst (Math_random e st) \<ge> 1 / 6")
    case True
    then have "process_tokens e (token # rest) parts protagonist st =
        process_tokens e rest parts protagonist (snd (Math_random e st))"
      using process_tokens_skip[of token e st rest parts protagonist] by simp
    with Cons.IH[OF wr inv1, of parts] show ?thesis by simp
  next
    case skip: False
    define tok where "tok = (if take 1 token = ''*'' then drop 1 token else token)"
    define st0 where "st0 = (if take 1 token = ''*'' then snd (Math_random e st) else st)"
    from wt have nq: "take 1 token \<noteq> ''?''" by (simp add: word_token_def)
    from wt obtain category where
      c: "getProp (Some (data e)) tok = Inr category" and
      pool: "truthy category \<longrightarrow>
              (\<exists>list. pool_of (data e) tok = Inr list \<and> fresh_in_reach e (length list))"
      unfolding word_token_def tok_def by blast
    have inv0: "\<forall>t. length (used_of st0 t) \<le> 4"
      unfolding st0_def using Cons.prems(2) inv1 by simp
    note eq = process_tokens_word[OF nq skip tok_def st0_def, of rest parts protagonist]
    show ?thesis
    proof (cases "truthy category")
      case True
      with pool obtain list where
        l: "pool_of (data e) tok = Inr list" "fresh_in_reach e (length list)" by blast
      from inv0 have "length (used_of st0 tok) \<le> 4" by blast
      from getRandomWord_fresh_returns[OF l this] obtain w st1 where
        w: "getRandomWord e tok st0 = Some (Inr (w, st1))" by blast
      from getRandomWord_short[OF w inv0] have inv: "\<forall>t. length (used_of st1 t) \<le> 4" .
      from Cons.IH[OF wr inv, of "parts @ [w]"] w c True show ?thesis unfolding eq by simp
    next
      case False
      from Cons.IH[OF wr inv0, of "parts @ [Some tok]"] c False show ?thesis unfolding eq by simp
    qed
  qed
qed

lemma pick_structure_total:
  assumes "word_structures e" and "0 \<le> random e (pos st)" and "random e (pos st) < 1"
  shows "\<exists>toks. pick_structure e st = Inr (toks, st\<lparr>pos := Suc (pos st)\<rparr>)
           \<and> (\<forall>t\<in>set toks. word_token e t)"
proof -
  from assms(1) obtain structures where
    g: "getProp (Some (data e)) ''structures'' = Inr (Some (JArr structures))" and
    ne: "structures \<noteq> []" and
    all: "\<forall>s\<in>set structures. \<exists>tokens. string_array_map (Some s) = Inr tokens
              \<and> (\<forall>t\<in>set tokens. word_token e t)"
    unfolding word_structures_def by blast
  define i where "i = floor_index (random e (pos st)) (length structures)"
  have i: "i < length structures"
    unfolding i_def using assms(2,3) ne by (intro floor_index_less) simp_all
  then have "structures ! i \<in> set structures" by simp
  with all obtain tokens where
    t: "string_array_map (Some (structures ! i)) = Inr tokens" "\<forall>t\<in>set tokens. word_token e t"
    by blast
  have "pick_structure e st = Inr (tokens, st\<lparr>pos := Suc (pos st)\<rparr>)"
    using g i t(1) by (simp add: pick_structure_def ebind_def randomFromArray_eq nth_opt_def i_def)
  with t(2) show ?thesis by blast
qed

lemma generateSentence_total:
  assumes "word_structures e" and "\<forall>k. 0 \<le> random e k \<and> random e k < 1"
    and "\<forall>t. length (used_of st t) \<le> 4"
  shows "\<exists>x st'. generateSentence e st = Some (Inr (x, st')) \<and> (\<forall>t. length (used_of st' t) \<le> 4)"
proof -
  from assms(2) have "0 \<le> random e (pos st)" "random e (pos st) < 1" by simp_all
  from pick_structure_total[OF assms(1) this] obtain toks where
    p: "pick_structure e st = Inr (toks, st\<lparr>pos := Suc (pos st)\<rparr>)" and
    w: "\<forall>t\<in>set toks. word_token e t" by blast
  have "\<forall>t. length (used_of (st\<lparr>pos := Suc (pos st)\<rparr>) t) \<le> 4" using assms(3) by simp
  from process_tokens_total[OF w this, of "[]" "\<lparr>pre_gender = Some [], pre_number = Some []\<rparr>"]
  obtain parts st' where
    "process_tokens e toks [] \<lparr>pre_gender = Some [], pre_number = Some []\<rparr> (st\<lparr>pos := Suc (pos st)\<rparr>)
       = Some (Inr (parts, st'))" "\<forall>t. length (used_of st' t) \<le> 4" by blast
  with p show ?thesis by (simp add: generateSentence_def)
qed

lemma Array_from_total:
  assumes f: "\<And>s. I s \<Longrightarrow> \<exists>x s'. f s = Some (Inr (x, s')) \<and> I s'" and "I st"
  shows "\<exists>xs st'. Array_from n f st = Some (Inr (xs, st')) \<and> I st'"
  using assms(2)
proof (induction n arbitrary: st)
  case 0
  then show ?case by simp
next
  case (Suc n)
  from f[OF Suc.prems] obtain x st1 where 1: "f st = Some (Inr (x, st1))" "I st1" by blast
  from Suc.IH[OF 1(2)] obtain xs st' where "Array_from n f st1 = Some (Inr (xs, st'))" "I st'" by blast
  with 1 show ?case by simp
qed

lemma generateParagraph_total:
  assumes "word_structures e" and "\<forall>k. 0 \<le> random e k \<and> random e k < 1"
    and "\<forall>t. length (used_of st t) \<le> 4"
  shows "\<exists>x st'. generateParagraph e st = Some (Inr (x, st')) \<and> (\<forall>t. length (used_of st' t) \<le> 4)"
proof -
  obtain k st1 where k: "random_between e 2 8 st = (k, st1)" by (cases "random_between e 2 8 st")
  then have "st1 = st\<lparr>pos := Suc (pos st)\<rparr>"
    by (simp add: random_between_def Math_random_def)
  then have inv: "\<forall>t. length (used_of st1 t) \<le> 4" using assms(3) by simp
  from Array_from_total[where f = "generateSentence e" and I = "\<lambda>s. \<forall>t. length (used_of s t) \<le> 4",
      OF generateSentence_total[OF assms(1,2)] inv, of k]
  obtain xs st' where "Array_from k (generateSentence e) st1 = Some (Inr (xs, st'))"
    "\<forall>t. length (used_of st' t) \<le> 4" by blast
  with k show ?thesis by (simp add: generateParagraph_def)
qed

lemma randomWordFromPool_total:
  assumes "wordsArr e \<noteq> []" and "\<forall>k. 0 \<le> random e k \<and> random e k < 1"
  shows "\<exists>w. randomWordFromPool e st = Inr (w, st\<lparr>pos := Suc (Suc (pos st))\<rparr>)"
proof -
  have "floor_index (random e (pos st)) (length (wordsArr e)) < length (wordsArr e)"
    using assms by (intro floor_index_less) simp_all
  then show ?thesis
    by (simp add: randomWordFromPool_def randomFromArray_eq nth_opt_def)
qed

lemma getLoremIpsum_total:
  assumes "\<forall>k. 0 \<le> random e k \<and> random e k < 1"
    and "ty = Words \<longrightarrow> wordsArr e \<noteq> []"
    and "ty \<noteq> Words \<longrightarrow> word_structures e"
    and "\<forall>t. length (used_of st t) \<le> 4"
  shows "\<exists>u st'. getLoremIpsum e ty st = Some (Inr (u, st')) \<and> (\<forall>t. length (used_of st' t) \<le> 4)"
proof (cases ty)
  case Paragraphs
  with assms(3) have "word_structures e" by simp
  from generateParagraph_total[OF this assms(1,4)] Paragraphs show ?thesis by simp
next
  case Sentences
  with assms(3) have "word_structures e" by simp
  from generateSentence_total[OF this assms(1,4)] obtain x st' where
    "generateSentence e st = Some (Inr (x, st'))" "\<forall>t. length (used_of st' t) \<le> 4" by blast
  with Sentences show ?thesis by simp
next
  case Words
  with assms(2) have "wordsArr e \<noteq> []" by simp
  from randomWordFromPool_total[OF this assms(1), of st] obtain w where
    "randomWordFromPool e st = Inr (w, st\<lparr>pos := Suc (Suc (pos st))\<rparr>)" by blast
  with Words assms(4) show ?thesis by simp
next
  case Lists
  with assms(3) have "word_structures e" by simp
  from generateSentence_total[OF this assms(1,4)] obtain x st' where
    "generateSentence e st = Some (Inr (x, st'))" "\<forall>t. length (used_of st' t) \<le> 4" by blast
  with Lists show ?thesis by simp
qed

lemma array_length_nat: "1 \<le> n \<Longrightarrow> n < 2 ^ 32 \<Longrightarrow> array_length (Fin (real n)) = Inr n"
proof -
  assume a: "1 \<le> n" "n < 2 ^ 32"
  have "\<lfloor>real n\<rfloor> = int n" by simp
  moreover have "int n \<le> 2 ^ 32 - 1" using a(2) by simp
  ultimately show ?thesis using a(1) by simp
qed

lemma generate_units_total:
  assumes "s_nbr s = Fin (real n)" and "1 \<le> n" and "n < 2 ^ 32"
    and "\<forall>k. 0 \<le> random e k \<and> random e k < 1"
    and "s_type s = Words \<longrightarrow> wordsArr e \<noteq> []"
    and "s_type s \<noteq> Words \<longrightarrow> word_structures e"
  shows "\<exists>units st'. generate_units e s st = Some (Inr (units, st'))"
proof -
  have m: "array_length (s_nbr s) = Inr n"
    using assms(1) array_length_nat[OF assms(2,3)] by simp
  have inv: "\<forall>t. length (used_of (st\<lparr>usedDictionary := {}, usedWords := []\<rparr>) t) \<le> 4"
    by (simp add: used_of_def)
  from Array_from_total[where f = "getLoremIpsum e (s_type s)"
      and I = "\<lambda>s. \<forall>t. length (used_of s t) \<le> 4",
      OF getLoremIpsum_total[OF assms(4,5,6)] inv, of n]
  obtain xs st' where
    "Array_from n (getLoremIpsum e (s_type s)) (st\<lparr>usedDictionary := {}, usedWords := []\<rparr>)
       = Some (Inr (xs, st'))" by blast
  with m show ?thesis by (simp add: generate_units_def)
qed

subsection \<open>The shape of the units\<close>

lemma Array_from_length:
  "Array_from n f st = Some (Inr (xs, st')) \<Longrightarrow> length xs = n"
proof (induction n arbitrary: st xs)
  case 0
  then show ?case by simp
next
  case (Suc n)
  from Suc.prems obtain x st1 xs' where
    "Array_from n f st1 = Some (Inr (xs', st'))" "xs = x # xs'"
    by (auto split: option.splits sum.splits)
  with Suc.IH show ?case by auto
qed

lemma Array_from_all:
  assumes f: "\<And>s x s'. f s = Some (Inr (x, s')) \<Longrightarrow> P x"
  shows "Array_from n f st = Some (Inr (xs, st')) \<Longrightarrow> \<forall>x\<in>set xs. P x"
proof (induction n arbitrary: st xs)
  case 0
  then show ?case by simp
next
  case (Suc n)
  from Suc.prems obtain x st1 xs' where
    "f st = Some (Inr (x, st1))" "Array_from n f st1 = Some (Inr (xs', st'))" "xs = x # xs'"
    by (auto split: option.splits sum.splits)
  with Suc.IH f show ?case by auto
qed

text \<open>
  When every call of \<open>g\<close> is a call of \<open>f\<close> whose result is wrapped by \<open>h\<close>, the array of
  \<open>g\<close> is the array of \<open>f\<close>, the calls made in the same order, with every element wrapped.
\<close>

lemma Array_from_map:
  assumes g: "\<And>s y s'. g s = Some (Inr (y, s')) \<Longrightarrow> \<exists>x. f s = Some (Inr (x, s')) \<and> y = h x"
  shows "Array_from n g st = Some (Inr (ys, st')) \<Longrightarrow>
           \<exists>xs. Array_from n f st = Some (Inr (xs, st')) \<and> ys = map h xs"
proof (induction n arbitrary: st ys)
  case 0
  then show ?case by simp
next
  case (Suc n)
  from Suc.prems obtain y st1 ys' where
    y: "g st = Some (Inr (y, st1))" and r: "Array_from n g st1 = Some (Inr (ys', st'))"
    and ys: "ys = y # ys'"
    by (auto split: option.splits sum.splits)
  from g[OF y] obtain x where x: "f st = Some (Inr (x, st1))" "y = h x" by blast
  from Suc.IH[OF r] obtain xs where xs: "Array_from n f st1 = Some (Inr (xs, st'))" "ys' = map h xs"
    by blast
  from x xs ys have "Array_from (Suc n) f st = Some (Inr (x # xs, st')) \<and> ys = map h (x # xs)"
    by simp
  then show ?case by blast
qed

lemma split_on_not_Nil [simp]: "split_on c s \<noteq> []"
  by (induction s) (auto split: list.splits)

lemma split_on_pieces: "w \<in> set (split_on c s) \<Longrightarrow> c \<notin> set w"
proof (induction s arbitrary: w)
  case Nil
  then show ?case by simp
next
  case (Cons x xs)
  show ?case
  proof (cases "x = c")
    case True
    with Cons show ?thesis by auto
  next
    case False
    obtain v vs where r: "split_on c xs = v # vs" by (cases "split_on c xs") auto
    with Cons.prems False have "w = x # v \<or> w \<in> set vs" by simp
    with Cons.IH r False show ?thesis by auto
  qed
qed

lemma split_on_example: "split_on CHR '' '' '' a  b '' = [[], ''a'', [], ''b'', []]"
  by simp

lemma array_length_nat_Inr:
  assumes "array_length (Fin (real n)) = Inr m" and "1 \<le> n"
  shows "m = n"
proof -
  have "\<lfloor>real n\<rfloor> = int n" by simp
  with assms show ?thesis by (simp split: if_splits)
qed

text \<open>
  A paragraph: the sentences of 2 to 8 successive calls of \<^verbatim>\<open>generateSentence\<close>, joined by
  single spaces, between the tags.
\<close>

lemma unit_Paragraphs:
  assumes "getLoremIpsum e Paragraphs st = Some (Inr (u, st'))"
  shows "\<exists>sentences st1.
           Array_from (length sentences) (generateSentence e) st1 = Some (Inr (sentences, st'))
           \<and> 2 \<le> length sentences
           \<and> ((\<forall>k. 0 \<le> random e k \<and> random e k < 1) \<longrightarrow> length sentences \<le> 8)
           \<and> u = ''<p>'' @ join_sp sentences @ ''</p>''"
proof -
  define k where "k = floor_index (random e (pos st)) 7 + 2"
  define st1 where "st1 = st\<lparr>pos := Suc (pos st)\<rparr>"
  have rb: "random_between e 2 8 st = (k, st1)"
    by (simp add: random_between_def Math_random_def k_def st1_def)
  from assms rb obtain sentences where
    a: "Array_from k (generateSentence e) st1 = Some (Inr (sentences, st'))" and
    u: "u = ''<p>'' @ join_sp sentences @ ''</p>''"
    by (auto simp: generateParagraph_def split: option.splits sum.splits)
  from Array_from_length[OF a] have len: "length sentences = k" .
  have a': "Array_from (length sentences) (generateSentence e) st1 = Some (Inr (sentences, st'))"
    using a len by simp
  have two: "2 \<le> length sentences" using len by (simp add: k_def)
  have eight: "(\<forall>k. 0 \<le> random e k \<and> random e k < 1) \<longrightarrow> length sentences \<le> 8"
  proof
    assume "\<forall>k. 0 \<le> random e k \<and> random e k < 1"
    then have "floor_index (random e (pos st)) 7 < 7" by (intro floor_index_less) simp_all
    then show "length sentences \<le> 8" using len by (simp add: k_def)
  qed
  from a' two eight u show ?thesis by blast
qed

lemma unit_Sentences:
  "getLoremIpsum e Sentences st = Some (Inr (u, st')) \<Longrightarrow>
     \<exists>x. generateSentence e st = Some (Inr (x, st')) \<and> u = x @ '' ''"
  by (auto split: option.splits sum.splits)

lemma unit_Lists:
  "getLoremIpsum e Lists st = Some (Inr (u, st')) \<Longrightarrow>
     \<exists>x. generateSentence e st = Some (Inr (x, st')) \<and> u = ''<li>'' @ x @ ''</li>''"
  by (auto split: option.splits sum.splits)

text \<open>
  A word unit: one of the pieces between the spaces of an entry of \<^verbatim>\<open>wordsArr\<close>, which
  has no space and may be empty, followed by a space.
\<close>

lemma unit_Words:
  assumes "getLoremIpsum e Words st = Some (Inr (u, st'))"
  shows "\<exists>w. u = w @ '' '' \<and> CHR '' '' \<notin> set w
     \<and> ((\<forall>k. 0 \<le> random e k \<and> random e k < 1) \<longrightarrow>
           (\<exists>it\<in>set (wordsArr e). w \<in> set (split_on CHR '' '' it)))"
proof -
  define i where "i = floor_index (random e (pos st)) (length (wordsArr e))"
  from assms obtain it where
    it: "nth_opt (wordsArr e) i = Some it" and
    u: "u = js_string (nth_opt (split_on CHR '' '' it)
                (floor_index (random e (Suc (pos st))) (length (split_on CHR '' '' it)))) @ '' ''"
    by (auto simp: randomWordFromPool_def randomFromArray_eq i_def split: sum.splits option.splits)
  define pieces where "pieces = split_on CHR '' '' it"
  define j where "j = floor_index (random e (Suc (pos st))) (length pieces)"
  from it have mem: "it \<in> set (wordsArr e)" by (auto simp: nth_opt_def split: if_splits)
  have u': "u = js_string (nth_opt pieces j) @ '' ''" using u by (simp add: pieces_def j_def)
  have nosp: "CHR '' '' \<notin> set (js_string (nth_opt pieces j))"
  proof (cases "nth_opt pieces j")
    case None
    then show ?thesis by (simp add: js_string_def)
  next
    case (Some x)
    then have "x \<in> set pieces" by (auto simp: nth_opt_def split: if_splits)
    with Some show ?thesis by (simp add: js_string_def pieces_def split_on_pieces)
  qed
  have "(\<forall>k. 0 \<le> random e k \<and> random e k < 1) \<longrightarrow>
           (\<exists>it\<in>set (wordsArr e). js_string (nth_opt pieces j) \<in> set (split_on CHR '' '' it))"
  proof
    assume r: "\<forall>k. 0 \<le> random e k \<and> random e k < 1"
    have "0 < length pieces" by (simp add: pieces_def)
    with r have "j < length pieces" unfolding j_def by (intro floor_index_less) simp_all
    then have "js_string (nth_opt pieces j) \<in> set pieces" by (simp add: nth_opt_def js_string_def)
    with mem show "\<exists>it\<in>set (wordsArr e). js_string (nth_opt pieces j) \<in> set (split_on CHR '' '' it)"
      unfolding pieces_def by blast
  qed
  with u' nosp show ?thesis by blast
qed

lemma unit_not_empty:
  assumes "getLoremIpsum e ty st = Some (Inr (u, st'))"
  shows "u \<noteq> []"
proof (cases ty)
  case Paragraphs
  with assms unit_Paragraphs[of e st u st'] show ?thesis by auto
next
  case Sentences
  with assms unit_Sentences[of e st u st'] show ?thesis by auto
next
  case Words
  with assms unit_Words[of e st u st'] show ?thesis by auto
next
  case Lists
  with assms unit_Lists[of e st u st'] show ?thesis by auto
qed

lemma generate_units_Inr:
  assumes "generate_units e s st = Some (Inr (units, st'))"
  shows "\<exists>m. array_length (s_nbr s) = Inr m
     \<and> Array_from m (getLoremIpsum e (s_type s)) (st\<lparr>usedDictionary := {}, usedWords := []\<rparr>)
          = Some (Inr (units, st'))"
proof (cases "array_length (s_nbr s)")
  case (Inl err)
  with assms show ?thesis by (simp add: generate_units_def)
next
  case (Inr m)
  with assms show ?thesis by (simp add: generate_units_def)
qed

lemma generate_units_count:
  assumes "generate_units e s st = Some (Inr (units, st'))" and "s_nbr s = Fin (real n)" and "1 \<le> n"
  shows "Array_from n (getLoremIpsum e (s_type s)) (st\<lparr>usedDictionary := {}, usedWords := []\<rparr>)
          = Some (Inr (units, st'))"
proof -
  from generate_units_Inr[OF assms(1)] obtain m where
    m: "array_length (s_nbr s) = Inr m" and
    af: "Array_from m (getLoremIpsum e (s_type s)) (st\<lparr>usedDictionary := {}, usedWords := []\<rparr>)
          = Some (Inr (units, st'))" by blast
  from m assms(2) have "array_length (Fin (real n)) = Inr m" by simp
  from array_length_nat_Inr[OF this assms(3)] af show ?thesis by simp
qed

text \<open>What a run that returns its units has made.\<close>

lemma generate_units_made:
  assumes a: "generate_units e s st = Some (Inr (units, st'))" "s_nbr s = Fin (real n)" "1 \<le> n"
  shows "length units = n" and "concat units \<noteq> []"
    and "run_setup e s st =
           Some (Inr ((updateResume e s (fixLigatures e (concat units)),
                       ''<article class='' @ [CHR 0x22] @ ''article'' @ [CHR 0x22] @ ''>''
                       @ fixLigatures e (concat units) @ ''</article>''), st'))"
    and "s_type s = Paragraphs \<longrightarrow>
           (\<forall>u\<in>set units. \<exists>sentences st1 st2.
              Array_from (length sentences) (generateSentence e) st1 = Some (Inr (sentences, st2))
              \<and> 2 \<le> length sentences
              \<and> ((\<forall>k. 0 \<le> random e k \<and> random e k < 1) \<longrightarrow> length sentences \<le> 8)
              \<and> u = ''<p>'' @ join_sp sentences @ ''</p>'')"
    and "s_type s = Sentences \<longrightarrow>
           (\<exists>sentences.
              Array_from n (generateSentence e) (st\<lparr>usedDictionary := {}, usedWords := []\<rparr>)
                = Some (Inr (sentences, st'))
              \<and> units = map (\<lambda>x. x @ '' '') sentences)"
    and "s_type s = Lists \<longrightarrow>
           (\<exists>sentences.
              Array_from n (generateSentence e) (st\<lparr>usedDictionary := {}, usedWords := []\<rparr>)
                = Some (Inr (sentences, st'))
              \<and> units = map (\<lambda>x. ''<li>'' @ x @ ''</li>'') sentences)"
    and "s_type s = Words \<longrightarrow>
           (\<forall>u\<in>set units. \<exists>w. u = w @ '' '' \<and> CHR '' '' \<notin> set w
              \<and> ((\<forall>k. 0 \<le> random e k \<and> random e k < 1) \<longrightarrow>
                    (\<exists>it\<in>set (wordsArr e). w \<in> set (split_on CHR '' '' it))))"
proof -
  note af = generate_units_count[OF a]
  from Array_from_length[OF af] show len: "length units = n" .
  have ne: "\<forall>u\<in>set units. u \<noteq> []"
    by (rule Array_from_all[where f = "getLoremIpsum e (s_type s)", OF _ af]) (rule unit_not_empty)
  from len a(3) obtain u us where "units = u # us" by (cases units) auto
  with ne show "concat units \<noteq> []" by simp
  show "run_setup e s st =
           Some (Inr ((updateResume e s (fixLigatures e (concat units)),
                       ''<article class='' @ [CHR 0x22] @ ''article'' @ [CHR 0x22] @ ''>''
                       @ fixLigatures e (concat units) @ ''</article>''), st'))"
    using a(1) by (simp add: run_setup_def Let_def)
  show "s_type s = Paragraphs \<longrightarrow>
           (\<forall>u\<in>set units. \<exists>sentences st1 st2.
              Array_from (length sentences) (generateSentence e) st1 = Some (Inr (sentences, st2))
              \<and> 2 \<le> length sentences
              \<and> ((\<forall>k. 0 \<le> random e k \<and> random e k < 1) \<longrightarrow> length sentences \<le> 8)
              \<and> u = ''<p>'' @ join_sp sentences @ ''</p>'')"
  proof
    assume t: "s_type s = Paragraphs"
    show "\<forall>u\<in>set units. \<exists>sentences st1 st2.
              Array_from (length sentences) (generateSentence e) st1 = Some (Inr (sentences, st2))
              \<and> 2 \<le> length sentences
              \<and> ((\<forall>k. 0 \<le> random e k \<and> random e k < 1) \<longrightarrow> length sentences \<le> 8)
              \<and> u = ''<p>'' @ join_sp sentences @ ''</p>''"
    proof (rule Array_from_all[where f = "getLoremIpsum e Paragraphs", OF _ af[unfolded t]])
      fix s0 x s1
      assume "getLoremIpsum e Paragraphs s0 = Some (Inr (x, s1))"
      from unit_Paragraphs[OF this]
      show "\<exists>sentences st1 st2.
              Array_from (length sentences) (generateSentence e) st1 = Some (Inr (sentences, st2))
              \<and> 2 \<le> length sentences
              \<and> ((\<forall>k. 0 \<le> random e k \<and> random e k < 1) \<longrightarrow> length sentences \<le> 8)
              \<and> x = ''<p>'' @ join_sp sentences @ ''</p>''"
        by blast
    qed
  qed
  show "s_type s = Sentences \<longrightarrow>
           (\<exists>sentences.
              Array_from n (generateSentence e) (st\<lparr>usedDictionary := {}, usedWords := []\<rparr>)
                = Some (Inr (sentences, st'))
              \<and> units = map (\<lambda>x. x @ '' '') sentences)"
  proof
    assume t: "s_type s = Sentences"
    show "\<exists>sentences.
              Array_from n (generateSentence e) (st\<lparr>usedDictionary := {}, usedWords := []\<rparr>)
                = Some (Inr (sentences, st'))
              \<and> units = map (\<lambda>x. x @ '' '') sentences"
      by (rule Array_from_map[where g = "getLoremIpsum e Sentences", OF _ af[unfolded t]])
         (rule unit_Sentences)
  qed
  show "s_type s = Lists \<longrightarrow>
           (\<exists>sentences.
              Array_from n (generateSentence e) (st\<lparr>usedDictionary := {}, usedWords := []\<rparr>)
                = Some (Inr (sentences, st'))
              \<and> units = map (\<lambda>x. ''<li>'' @ x @ ''</li>'') sentences)"
  proof
    assume t: "s_type s = Lists"
    show "\<exists>sentences.
              Array_from n (generateSentence e) (st\<lparr>usedDictionary := {}, usedWords := []\<rparr>)
                = Some (Inr (sentences, st'))
              \<and> units = map (\<lambda>x. ''<li>'' @ x @ ''</li>'') sentences"
      by (rule Array_from_map[where g = "getLoremIpsum e Lists", OF _ af[unfolded t]])
         (rule unit_Lists)
  qed
  show "s_type s = Words \<longrightarrow>
           (\<forall>u\<in>set units. \<exists>w. u = w @ '' '' \<and> CHR '' '' \<notin> set w
              \<and> ((\<forall>k. 0 \<le> random e k \<and> random e k < 1) \<longrightarrow>
                    (\<exists>it\<in>set (wordsArr e). w \<in> set (split_on CHR '' '' it))))"
  proof
    assume t: "s_type s = Words"
    show "\<forall>u\<in>set units. \<exists>w. u = w @ '' '' \<and> CHR '' '' \<notin> set w
              \<and> ((\<forall>k. 0 \<le> random e k \<and> random e k < 1) \<longrightarrow>
                    (\<exists>it\<in>set (wordsArr e). w \<in> set (split_on CHR '' '' it)))"
      by (rule Array_from_all[where f = "getLoremIpsum e Words", OF _ af[unfolded t]])
         (rule unit_Words)
  qed
qed

subsection \<open>The example store\<close>

lemma data_example_env [simp]: "data (example_env d ws rnd) = d"
  and wordsArr_example_env [simp]: "wordsArr (example_env d ws rnd) = ws"
  and random_example_env [simp]: "random (example_env d ws rnd) = rnd"
  and callStack_example_env [simp]: "callStack (example_env d ws rnd) = 7000"
  by (simp_all add: example_env_def)

lemma sevenths_range: "0 \<le> sevenths k \<and> sevenths k < 1"
  by (simp add: sevenths_def)

lemma sevenths_index:
  assumes "i < 6"
  shows "floor_index (real (Suc i) / 7) 6 = i"
proof -
  have "\<lfloor>real (Suc i) / 7 * real (6::nat)\<rfloor> = int i"
  proof (rule floor_unique)
    show "of_int (int i) \<le> real (Suc i) / 7 * real (6::nat)" using assms by simp
    show "real (Suc i) / 7 * real (6::nat) < of_int (int i) + 1" using assms by simp
  qed
  then show ?thesis by (simp add: floor_index_def)
qed


lemma mod7:
  assumes "i < 6"
  shows "(p + (i + 8 - p mod 7) mod 7) mod 7 = Suc i"
proof -
  define a where "a = p mod 7"
  have a: "a < 7" by (simp add: a_def)
  have "(p + (i + 8 - a) mod 7) mod 7 = (a + (i + 8 - a) mod 7) mod 7"
    unfolding a_def by (rule mod_add_left_eq[symmetric])
  also have "\<dots> = (a + (i + 8 - a)) mod 7" by (rule mod_add_right_eq)
  also have "a + (i + 8 - a) = Suc i + 7" using a by linarith
  also have "(Suc i + 7) mod 7 = Suc i mod 7" by (rule mod_add_self2)
  also have "\<dots> = Suc i" using assms by (intro mod_less) linarith
  finally show ?thesis unfolding a_def .
qed


lemma sevenths_fresh: "fresh_in_reach (example_env d ws sevenths) 6"
  unfolding fresh_in_reach_def
proof (intro allI impI)
  fix p :: nat and used :: "nat list"
  assume "length used \<le> 4"
  then obtain i where i: "i < 6" "i \<notin> set used"
    using index_outside_memory[of used 6] by auto
  define k where "k = (i + 8 - p mod 7) mod 7"
  have m: "(p + k) mod 7 = Suc i" unfolding k_def by (rule mod7[OF i(1)])
  have "k < 7" unfolding k_def by (rule mod_less_divisor) simp
  then have k: "k \<le> callStack (example_env d ws sevenths)" by simp
  have "floor_index (sevenths (p + k)) 6 = i"
    unfolding sevenths_def m by (rule sevenths_index[OF i(1)])
  then have "floor_index (random (example_env d ws sevenths) (p + k)) 6 \<notin> set used"
    using i(2) by simp
  with k show "\<exists>k\<le>callStack (example_env d ws sevenths).
      floor_index (random (example_env d ws sevenths) (p + k)) 6 \<notin> set used"
    by blast
qed


lemma town_word_structures: "word_structures (example_env town_store ws sevenths)"
proof -
  let ?e = "example_env town_store ws sevenths"
  let ?pl = "[''saloon'', ''ranch'', ''canyon'', ''mesa'', ''gulch'', ''corral'']"
  have g: "getProp (Some (data ?e)) ''structures'' = Inr (Some (JArr [JArr [JStr ''howdy'', JStr ''place'']]))"
    by (simp add: town_store_def)
  have t: "string_array_map (Some (JArr [JStr ''howdy'', JStr ''place''])) = Inr [''howdy'', ''place'']"
    by simp
  have h: "word_token ?e ''howdy''"
    by (simp add: word_token_def town_store_def inherited_methods_def)
  have len: "length ?pl = 6" by simp
  have f: "fresh_in_reach ?e (length ?pl)" unfolding len by (rule sevenths_fresh)
  have pp: "pool_of (data ?e) ''place'' = Inr ?pl" using pool_place by simp
  have gp: "getProp (Some (data ?e)) ''place'' = Inr (Some (JArr (map JStr ?pl)))"
    by (simp add: town_store_def)
  have p: "word_token ?e ''place''"
    unfolding word_token_def
  proof (intro conjI)
    show "take 1 ''place'' \<noteq> ''?''" by simp
    have sel: "(if take 1 ''place'' = ''*'' then drop 1 ''place'' else ''place'') = ''place''" by simp
    show "\<exists>category.
       getProp (Some (data ?e)) (if take 1 ''place'' = ''*'' then drop 1 ''place'' else ''place'') = Inr category
       \<and> (truthy category \<longrightarrow>
            (\<exists>list. pool_of (data ?e) (if take 1 ''place'' = ''*'' then drop 1 ''place'' else ''place'') = Inr list
               \<and> fresh_in_reach ?e (length list)))"
      unfolding sel using gp pp f by blast
  qed
  from h p have all: "\<forall>t\<in>set [''howdy'', ''place'']. word_token ?e t" by simp
  have "getProp (Some (data ?e)) ''structures'' = Inr (Some (JArr [JArr [JStr ''howdy'', JStr ''place'']]))
        \<and> [JArr [JStr ''howdy'', JStr ''place'']] \<noteq> []
        \<and> (\<forall>s\<in>set [JArr [JStr ''howdy'', JStr ''place'']]. \<exists>tokens. string_array_map (Some s) = Inr tokens
              \<and> (\<forall>t\<in>set tokens. word_token ?e t))"
    using g t all by simp
  then show ?thesis unfolding word_structures_def by blast
qed

subsection \<open>The claim\<close>

text \<open>
  Claim C1 as stated fails for paragraphs: two paragraphs are put together with nothing
  between them, not with a single space.
\<close>

theorem paragraphs_not_separated:
  "generate_units (example_env plain_store [] (\<lambda>i. 0)) (example_settings 2 Paragraphs) (cleared 0)
     = Some (Inr ([''<p>Howdy partner Howdy partner</p>'', ''<p>Howdy partner Howdy partner</p>''],
          \<lparr>usedWords = [], usedDictionary = {}, pos = 6\<rparr>))
   \<and> concat [''<p>Howdy partner Howdy partner</p>'', ''<p>Howdy partner Howdy partner</p>'']
       \<noteq> spec_concatenated Paragraphs
           [''<p>Howdy partner Howdy partner</p>'', ''<p>Howdy partner Howdy partner</p>'']"
  by (simp add: ev spec_concatenated_def)

text \<open>
  Claim C1, as amended.  Every run ends, with its units or with an error.  For a whole
  count \<open>n\<close> from 1 to below \<open>2\<^sup>3\<^sup>2\<close> and random numbers in \<open>[0, 1)\<close> the run produces its
  units: in \<^verbatim>\<open>Words\<close> mode when \<^verbatim>\<open>wordsArr\<close> is not empty, and in the other modes when
  the store has sentence structures whose tokens are plain or optional and name either
  nothing in the store or a pool of strings for which the random numbers keep giving an
  index outside the memory while the call stack has room.  A run with a whole count
  \<open>n \<ge> 1\<close> that returns has produced exactly \<open>n\<close> units; the text is their concatenation
  with no separator, and it is not empty.  A paragraph is \<^verbatim>\<open><p>\<close>, the sentences of 2 to 8
  successive calls of \<^verbatim>\<open>generateSentence\<close> joined by single spaces, \<^verbatim>\<open></p>\<close>.  The
  sentence units are the sentences of \<open>n\<close> successive calls of \<^verbatim>\<open>generateSentence\<close>, each
  followed by one space and without markup; the list items are these sentences, each
  between \<^verbatim>\<open><li>\<close> and \<^verbatim>\<open></li>\<close>.  A word unit is a piece between the spaces of an entry
  of \<^verbatim>\<open>wordsArr\<close>, which has no space and may be empty, followed by one space.
\<close>

theorem generate_units_produces:
  "(\<exists>r. generate_units e s st = Some r)
   \<and> (s_nbr s = Fin (real n) \<and> 1 \<le> n \<and> n < 2 ^ 32
        \<and> (\<forall>k. 0 \<le> random e k \<and> random e k < 1)
        \<and> (s_type s = Words \<longrightarrow> wordsArr e \<noteq> [])
        \<and> (s_type s \<noteq> Words \<longrightarrow> word_structures e)
      \<longrightarrow> (\<exists>units st'. generate_units e s st = Some (Inr (units, st'))))
   \<and> (generate_units e s st = Some (Inr (units, st')) \<and> s_nbr s = Fin (real n) \<and> 1 \<le> n \<longrightarrow>
        length units = n \<and> concat units \<noteq> []
        \<and> run_setup e s st =
             Some (Inr ((updateResume e s (fixLigatures e (concat units)),
                         ''<article class='' @ [CHR 0x22] @ ''article'' @ [CHR 0x22] @ ''>''
                         @ fixLigatures e (concat units) @ ''</article>''), st'))
        \<and> (s_type s = Paragraphs \<longrightarrow>
             (\<forall>u\<in>set units. \<exists>sentences st1 st2.
                Array_from (length sentences) (generateSentence e) st1 = Some (Inr (sentences, st2))
                \<and> 2 \<le> length sentences
                \<and> ((\<forall>k. 0 \<le> random e k \<and> random e k < 1) \<longrightarrow> length sentences \<le> 8)
                \<and> u = ''<p>'' @ join_sp sentences @ ''</p>''))
        \<and> (s_type s = Sentences \<longrightarrow>
             (\<exists>sentences.
                Array_from n (generateSentence e) (st\<lparr>usedDictionary := {}, usedWords := []\<rparr>)
                  = Some (Inr (sentences, st'))
                \<and> units = map (\<lambda>x. x @ '' '') sentences))
        \<and> (s_type s = Lists \<longrightarrow>
             (\<exists>sentences.
                Array_from n (generateSentence e) (st\<lparr>usedDictionary := {}, usedWords := []\<rparr>)
                  = Some (Inr (sentences, st'))
                \<and> units = map (\<lambda>x. ''<li>'' @ x @ ''</li>'') sentences))
        \<and> (s_type s = Words \<longrightarrow>
             (\<forall>u\<in>set units. \<exists>w. u = w @ '' '' \<and> CHR '' '' \<notin> set w
                \<and> ((\<forall>k. 0 \<le> random e k \<and> random e k < 1) \<longrightarrow>
                      (\<exists>it\<in>set (wordsArr e). w \<in> set (split_on CHR '' '' it))))))"
proof (intro conjI)
  show "\<exists>r. generate_units e s st = Some r" by (rule generate_units_ends)
next
  show "s_nbr s = Fin (real n) \<and> 1 \<le> n \<and> n < 2 ^ 32
        \<and> (\<forall>k. 0 \<le> random e k \<and> random e k < 1)
        \<and> (s_type s = Words \<longrightarrow> wordsArr e \<noteq> [])
        \<and> (s_type s \<noteq> Words \<longrightarrow> word_structures e)
      \<longrightarrow> (\<exists>units st'. generate_units e s st = Some (Inr (units, st')))"
  proof
    assume h: "s_nbr s = Fin (real n) \<and> 1 \<le> n \<and> n < 2 ^ 32
        \<and> (\<forall>k. 0 \<le> random e k \<and> random e k < 1)
        \<and> (s_type s = Words \<longrightarrow> wordsArr e \<noteq> [])
        \<and> (s_type s \<noteq> Words \<longrightarrow> word_structures e)"
    then have 1: "s_nbr s = Fin (real n)" and 2: "1 \<le> n" and 3: "n < 2 ^ 32"
      and 4: "\<forall>k. 0 \<le> random e k \<and> random e k < 1"
      and 5: "s_type s = Words \<longrightarrow> wordsArr e \<noteq> []"
      and 6: "s_type s \<noteq> Words \<longrightarrow> word_structures e"
      by blast+
    show "\<exists>units st'. generate_units e s st = Some (Inr (units, st'))"
      by (rule generate_units_total[OF 1 2 3 4 5 6])
  qed
next
  show "generate_units e s st = Some (Inr (units, st')) \<and> s_nbr s = Fin (real n) \<and> 1 \<le> n \<longrightarrow>
        length units = n \<and> concat units \<noteq> []
        \<and> run_setup e s st =
             Some (Inr ((updateResume e s (fixLigatures e (concat units)),
                         ''<article class='' @ [CHR 0x22] @ ''article'' @ [CHR 0x22] @ ''>''
                         @ fixLigatures e (concat units) @ ''</article>''), st'))
        \<and> (s_type s = Paragraphs \<longrightarrow>
             (\<forall>u\<in>set units. \<exists>sentences st1 st2.
                Array_from (length sentences) (generateSentence e) st1 = Some (Inr (sentences, st2))
                \<and> 2 \<le> length sentences
                \<and> ((\<forall>k. 0 \<le> random e k \<and> random e k < 1) \<longrightarrow> length sentences \<le> 8)
                \<and> u = ''<p>'' @ join_sp sentences @ ''</p>''))
        \<and> (s_type s = Sentences \<longrightarrow>
             (\<exists>sentences.
                Array_from n (generateSentence e) (st\<lparr>usedDictionary := {}, usedWords := []\<rparr>)
                  = Some (Inr (sentences, st'))
                \<and> units = map (\<lambda>x. x @ '' '') sentences))
        \<and> (s_type s = Lists \<longrightarrow>
             (\<exists>sentences.
                Array_from n (generateSentence e) (st\<lparr>usedDictionary := {}, usedWords := []\<rparr>)
                  = Some (Inr (sentences, st'))
                \<and> units = map (\<lambda>x. ''<li>'' @ x @ ''</li>'') sentences))
        \<and> (s_type s = Words \<longrightarrow>
             (\<forall>u\<in>set units. \<exists>w. u = w @ '' '' \<and> CHR '' '' \<notin> set w
                \<and> ((\<forall>k. 0 \<le> random e k \<and> random e k < 1) \<longrightarrow>
                      (\<exists>it\<in>set (wordsArr e). w \<in> set (split_on CHR '' '' it)))))"
  proof
    assume h: "generate_units e s st = Some (Inr (units, st')) \<and> s_nbr s = Fin (real n) \<and> 1 \<le> n"
    then have a: "generate_units e s st = Some (Inr (units, st'))" "s_nbr s = Fin (real n)" "1 \<le> n"
      by simp_all
    note M = generate_units_made[OF a]
    from M(1) M(2) M(3) M(4) M(5) M(6) M(7)
    show "length units = n \<and> concat units \<noteq> []
        \<and> run_setup e s st =
             Some (Inr ((updateResume e s (fixLigatures e (concat units)),
                         ''<article class='' @ [CHR 0x22] @ ''article'' @ [CHR 0x22] @ ''>''
                         @ fixLigatures e (concat units) @ ''</article>''), st'))
        \<and> (s_type s = Paragraphs \<longrightarrow>
             (\<forall>u\<in>set units. \<exists>sentences st1 st2.
                Array_from (length sentences) (generateSentence e) st1 = Some (Inr (sentences, st2))
                \<and> 2 \<le> length sentences
                \<and> ((\<forall>k. 0 \<le> random e k \<and> random e k < 1) \<longrightarrow> length sentences \<le> 8)
                \<and> u = ''<p>'' @ join_sp sentences @ ''</p>''))
        \<and> (s_type s = Sentences \<longrightarrow>
             (\<exists>sentences.
                Array_from n (generateSentence e) (st\<lparr>usedDictionary := {}, usedWords := []\<rparr>)
                  = Some (Inr (sentences, st'))
                \<and> units = map (\<lambda>x. x @ '' '') sentences))
        \<and> (s_type s = Lists \<longrightarrow>
             (\<exists>sentences.
                Array_from n (generateSentence e) (st\<lparr>usedDictionary := {}, usedWords := []\<rparr>)
                  = Some (Inr (sentences, st'))
                \<and> units = map (\<lambda>x. ''<li>'' @ x @ ''</li>'') sentences))
        \<and> (s_type s = Words \<longrightarrow>
             (\<forall>u\<in>set units. \<exists>w. u = w @ '' '' \<and> CHR '' '' \<notin> set w
                \<and> ((\<forall>k. 0 \<le> random e k \<and> random e k < 1) \<longrightarrow>
                      (\<exists>it\<in>set (wordsArr e). w \<in> set (split_on CHR '' '' it)))))"
      by (intro conjI)
  qed
qed

text \<open>
  Two sentences from the store with the six places, and three words from the pool
  \<^verbatim>\<open>chuck wagon\<close>, \<^verbatim>\<open>saloon\<close>, under the sevenths.
\<close>

theorem generate_units_produces_witness:
  "word_structures (example_env town_store [] sevenths)
   \<and> (\<forall>k. 0 \<le> random (example_env town_store [] sevenths) k
          \<and> random (example_env town_store [] sevenths) k < 1)
   \<and> s_nbr (example_settings 2 Sentences) = Fin (real 2) \<and> (1::nat) \<le> 2 \<and> (2::nat) < 2 ^ 32
   \<and> (\<exists>units st'. generate_units (example_env town_store [] sevenths)
          (example_settings 2 Sentences) (cleared 0) = Some (Inr (units, st')))
   \<and> generate_units (example_env town_store [] sevenths) (example_settings 2 Sentences) (cleared 0)
     = Some (Inr ([''Howdy saloon '', ''Howdy canyon ''],
          \<lparr>usedWords = [(''place'', [0, 2])], usedDictionary = {}, pos = 4\<rparr>))
   \<and> length [''Howdy saloon '', ''Howdy canyon ''] = (2::nat)
   \<and> concat [''Howdy saloon '', ''Howdy canyon ''] \<noteq> []
   \<and> (\<exists>sentences.
         Array_from 2 (generateSentence (example_env town_store [] sevenths))
           ((cleared 0)\<lparr>usedDictionary := {}, usedWords := []\<rparr>)
           = Some (Inr (sentences, \<lparr>usedWords = [(''place'', [0, 2])], usedDictionary = {}, pos = 4\<rparr>))
         \<and> [''Howdy saloon '', ''Howdy canyon ''] = map (\<lambda>x. x @ '' '') sentences)
   \<and> wordsArr (example_env plain_store [''chuck wagon'', ''saloon''] sevenths) \<noteq> []
   \<and> generate_units (example_env plain_store [''chuck wagon'', ''saloon''] sevenths)
        (example_settings 3 Words) (cleared 0)
     = Some (Inr ([''chuck '', ''chuck '', ''saloon ''],
          \<lparr>usedWords = [], usedDictionary = {}, pos = 6\<rparr>))
   \<and> length [''chuck '', ''chuck '', ''saloon ''] = (3::nat)"
proof -
  let ?e = "example_env town_store [] sevenths"
  let ?s = "example_settings 2 Sentences"
  let ?u = "[''Howdy saloon '', ''Howdy canyon '']"
  let ?st = "\<lparr>usedWords = [(''place'', [0, 2])], usedDictionary = {}, pos = 4\<rparr>"
  let ?e2 = "example_env plain_store [''chuck wagon'', ''saloon''] sevenths"
  let ?s2 = "example_settings 3 Words"
  let ?u2 = "[''chuck '', ''chuck '', ''saloon '']"
  let ?st2 = "\<lparr>usedWords = [], usedDictionary = {}, pos = 6\<rparr>"
  have ws: "word_structures ?e" by (rule town_word_structures)
  have rnd: "\<forall>k. 0 \<le> random ?e k \<and> random ?e k < 1" by (simp add: sevenths_range)
  have n: "s_nbr ?s = Fin (real 2)" by (simp add: example_settings_def)
  have le: "(1::nat) \<le> 2" and lt: "(2::nat) < 2 ^ 32" by simp_all
  have ty: "s_type ?s = Sentences" by (simp add: example_settings_def)
  have w1: "s_type ?s = Words \<longrightarrow> wordsArr ?e \<noteq> []" by (simp add: example_settings_def)
  have w2: "s_type ?s \<noteq> Words \<longrightarrow> word_structures ?e" using ws by simp
  note T = generate_units_produces[of ?e ?s "cleared 0" 2 ?u ?st]
  note T2 = T[THEN conjunct2, THEN conjunct1, THEN mp, OF conjI[OF n conjI[OF le conjI[OF lt conjI[OF rnd conjI[OF w1 w2]]]]]]
  have g: "generate_units ?e ?s (cleared 0) = Some (Inr (?u, ?st))"
    by (simp add: ev getRandomWord_def getRandomWord_from.simps pool_of_def town_store_def
          used_of_def push_used_def)
  note T3 = T[THEN conjunct2, THEN conjunct2, THEN mp, OF conjI[OF g conjI[OF n le]]]
  from T3 have l: "length ?u = (2::nat)" and c: "concat ?u \<noteq> []" by blast+
  from T3 ty have m: "\<exists>sentences.
         Array_from 2 (generateSentence ?e) ((cleared 0)\<lparr>usedDictionary := {}, usedWords := []\<rparr>)
           = Some (Inr (sentences, ?st))
         \<and> ?u = map (\<lambda>x. x @ '' '') sentences" by blast
  have wa: "wordsArr ?e2 \<noteq> []" by simp
  have g2: "generate_units ?e2 ?s2 (cleared 0) = Some (Inr (?u2, ?st2))"
    by (simp add: ev)
  have n2: "s_nbr ?s2 = Fin (real 3)" by (simp add: example_settings_def)
  have le2: "(1::nat) \<le> 3" by simp
  note U = generate_units_produces[of ?e2 ?s2 "cleared 0" 3 ?u2 ?st2,
      THEN conjunct2, THEN conjunct2, THEN mp, OF conjI[OF g2 conjI[OF n2 le2]]]
  from U have l2: "length ?u2 = (3::nat)" by blast
  from ws rnd n le lt T2 g l c m wa g2 l2 show ?thesis by blast
qed

section \<open>C3: counts that are not positive whole numbers\<close>

lemma or_1_falsy: "v = NaN \<or> v = Fin 0 \<Longrightarrow> or_1 v = Fin 1"
  by (auto simp: or_1_def)

lemma or_1_other: "r \<noteq> 0 \<Longrightarrow> or_1 (Fin r) = Fin r"
  by (simp add: or_1_def)

lemma array_length_negative: "r < 0 \<Longrightarrow> array_length (Fin r) = Inr 0"
  by simp

lemma array_length_positive:
  assumes "0 < r" and "r < 2 ^ 32"
  shows "array_length (Fin r) = Inr (nat \<lfloor>r\<rfloor>)"
proof (cases "r < 1")
  case True
  then have "\<lfloor>r\<rfloor> = 0" using assms(1) by (simp add: floor_eq_iff)
  with True show ?thesis by simp
next
  case False
  have "\<lfloor>r\<rfloor> < 2 ^ 32" using assms(2) by (simp add: floor_less_iff)
  then have "\<not> \<lfloor>r\<rfloor> > 2 ^ 32 - 1" by simp
  with False show ?thesis by simp
qed

text \<open>
  Claim C3 as stated fails: a negative count is kept as it is and the run has no unit at
  all, where a count of 1 gives one paragraph.
\<close>

theorem negative_count_not_one:
  "generate_units (example_env plain_store [] (\<lambda>i. 0))
      (on_nbr_change (Fin (- 3)) (example_settings 5 Paragraphs)) (cleared 0)
     = Some (Inr ([], cleared 0))
   \<and> generate_units (example_env plain_store [] (\<lambda>i. 0))
      (on_nbr_change (Fin 1) (example_settings 5 Paragraphs)) (cleared 0)
     = Some (Inr ([''<p>Howdy partner Howdy partner</p>''],
          \<lparr>usedWords = [], usedDictionary = {}, pos = 3\<rparr>))"
  by (simp add: ev on_nbr_change_def or_1_def)

lemma array_length_below_1: "r < 1 \<Longrightarrow> array_length (Fin r) = Inr 0"
  by simp

lemma array_length_floor:
  assumes "1 \<le> r"
  shows "array_length (Fin (of_int \<lfloor>r\<rfloor>)) = array_length (Fin r)"
proof -
  have "1 \<le> \<lfloor>r\<rfloor>" using assms by (simp add: le_floor_iff)
  then have "\<not> (of_int \<lfloor>r\<rfloor> :: real) < 1" by simp
  moreover have "\<not> r < 1" using assms by simp
  ultimately show ?thesis by (simp only: array_length.simps if_False floor_of_int)
qed

lemma array_length_huge:
  assumes "2 ^ 32 \<le> r"
  shows "array_length (Fin r) = Inl RangeError"
proof -
  have "(2 ^ 32 :: int) \<le> \<lfloor>r\<rfloor>" using assms by (simp add: le_floor_iff)
  then have "\<lfloor>r\<rfloor> > 2 ^ 32 - 1" by simp
  moreover have "\<not> r < 1" using assms by simp
  ultimately show ?thesis by simp
qed

lemma generate_units_length:
  assumes "generate_units e s st = Some (Inr (units, st'))" and "s_nbr s = Fin r"
  shows "length units = nat \<lfloor>r\<rfloor>"
proof -
  from generate_units_Inr[OF assms(1)] obtain m where
    m: "array_length (s_nbr s) = Inr m" and
    af: "Array_from m (getLoremIpsum e (s_type s)) (st\<lparr>usedDictionary := {}, usedWords := []\<rparr>)
          = Some (Inr (units, st'))" by blast
  have "m = nat \<lfloor>r\<rfloor>"
  proof (cases "r < 1")
    case True
    then have "\<lfloor>r\<rfloor> \<le> 0" by (simp add: floor_le_iff)
    with m assms(2) True show ?thesis by simp
  next
    case False
    with m assms(2) show ?thesis by (simp split: if_splits)
  qed
  with Array_from_length[OF af] show ?thesis by simp
qed

text \<open>
  Claim C3, as amended.  A count that is 0 or not a number (which an empty or
  non-numeric input gives) is replaced by 1, in the constructor and in the
  \<^verbatim>\<open>change\<close> listener alike, so the run is the run for 1.  Every other count is kept.
  A count below 1 (a negative one, a fraction, minus infinity) gives a run with no unit
  and no error.  A count \<open>r\<close> of at least 1 gives the very run of the whole count
  \<open>\<lfloor>r\<rfloor>\<close>: for \<open>r\<close> below \<open>2\<^sup>3\<^sup>2\<close> it is \<open>\<lfloor>r\<rfloor>\<close> calls of \<^verbatim>\<open>getLoremIpsum\<close>, from \<open>2\<^sup>3\<^sup>2\<close>
  on (and for infinity) it is a \<^verbatim>\<open>RangeError\<close>.  Whenever the run of a count \<open>r\<close> returns
  units, there are \<open>\<lfloor>r\<rfloor>\<close> of them (none for \<open>r < 1\<close>).
\<close>

theorem invalid_count_handling:
  "(v = NaN \<or> v = Fin 0 \<longrightarrow>
       on_nbr_change v s = on_nbr_change (Fin 1) s
       \<and> constructor_settings v = constructor_settings (Fin 1))
   \<and> s_nbr (constructor_settings v) = s_nbr (on_nbr_change v s)
   \<and> (r < 1 \<and> r \<noteq> 0 \<longrightarrow>
         generate_units e (on_nbr_change (Fin r) s) st =
           Some (Inr ([], st\<lparr>usedDictionary := {}, usedWords := []\<rparr>)))
   \<and> generate_units e (on_nbr_change NegInf s) st =
           Some (Inr ([], st\<lparr>usedDictionary := {}, usedWords := []\<rparr>))
   \<and> (1 \<le> r \<longrightarrow>
         generate_units e (on_nbr_change (Fin r) s) st =
           generate_units e (on_nbr_change (Fin (of_int \<lfloor>r\<rfloor>)) s) st)
   \<and> (1 \<le> r \<and> r < 2 ^ 32 \<longrightarrow>
         generate_units e (on_nbr_change (Fin r) s) st =
           Array_from (nat \<lfloor>r\<rfloor>) (getLoremIpsum e (s_type s))
             (st\<lparr>usedDictionary := {}, usedWords := []\<rparr>))
   \<and> (2 ^ 32 \<le> r \<longrightarrow> generate_units e (on_nbr_change (Fin r) s) st = Some (Inl RangeError))
   \<and> generate_units e (on_nbr_change PosInf s) st = Some (Inl RangeError)
   \<and> (\<forall>units st'. r \<noteq> 0 \<and> generate_units e (on_nbr_change (Fin r) s) st = Some (Inr (units, st'))
         \<longrightarrow> length units = nat \<lfloor>r\<rfloor>)"
proof (intro conjI impI allI)
  assume "v = NaN \<or> v = Fin 0"
  then have "or_1 v = Fin 1" by (rule or_1_falsy)
  moreover have "or_1 (Fin 1) = Fin 1" by (simp add: or_1_def)
  ultimately show "on_nbr_change v s = on_nbr_change (Fin 1) s"
    and "constructor_settings v = constructor_settings (Fin 1)"
    by (simp_all add: on_nbr_change_def constructor_settings_def)
next
  show "s_nbr (constructor_settings v) = s_nbr (on_nbr_change v s)"
    by (simp add: on_nbr_change_def constructor_settings_def)
next
  assume r: "r < 1 \<and> r \<noteq> 0"
  then have "or_1 (Fin r) = Fin r" by (simp add: or_1_other)
  moreover from r have "array_length (Fin r) = Inr 0" by (simp only: array_length_below_1)
  ultimately show "generate_units e (on_nbr_change (Fin r) s) st =
           Some (Inr ([], st\<lparr>usedDictionary := {}, usedWords := []\<rparr>))"
    by (simp add: generate_units_def on_nbr_change_def)
next
  show "generate_units e (on_nbr_change NegInf s) st =
           Some (Inr ([], st\<lparr>usedDictionary := {}, usedWords := []\<rparr>))"
    by (simp add: generate_units_def on_nbr_change_def or_1_def)
next
  assume r: "1 \<le> r"
  then have 1: "or_1 (Fin r) = Fin r" by (simp add: or_1_other)
  from r have f1: "1 \<le> \<lfloor>r\<rfloor>" by (simp add: le_floor_iff)
  have "(of_int \<lfloor>r\<rfloor> :: real) \<noteq> 0"
  proof
    assume "(of_int \<lfloor>r\<rfloor> :: real) = 0"
    then have "\<lfloor>r\<rfloor> = 0" by (simp only: of_int_eq_0_iff)
    with f1 show False by linarith
  qed
  then have 2: "or_1 (Fin (of_int \<lfloor>r\<rfloor>)) = Fin (of_int \<lfloor>r\<rfloor>)" by (rule or_1_other)
  show "generate_units e (on_nbr_change (Fin r) s) st =
           generate_units e (on_nbr_change (Fin (of_int \<lfloor>r\<rfloor>)) s) st"
    by (simp add: generate_units_def on_nbr_change_def 1 2 array_length_floor[OF r]
          del: array_length.simps split: sum.splits)
next
  assume r: "1 \<le> r \<and> r < 2 ^ 32"
  then have r0: "0 < r" and r1: "r < 2 ^ 32" by simp_all
  from r have "or_1 (Fin r) = Fin r" by (simp add: or_1_other)
  moreover note array_length_positive[OF r0 r1]
  ultimately show "generate_units e (on_nbr_change (Fin r) s) st =
           Array_from (nat \<lfloor>r\<rfloor>) (getLoremIpsum e (s_type s))
             (st\<lparr>usedDictionary := {}, usedWords := []\<rparr>)"
    by (simp add: generate_units_def on_nbr_change_def)
next
  assume r: "2 ^ 32 \<le> r"
  then have "or_1 (Fin r) = Fin r" by (simp add: or_1_other)
  with array_length_huge[OF r]
  show "generate_units e (on_nbr_change (Fin r) s) st = Some (Inl RangeError)"
    by (simp add: generate_units_def on_nbr_change_def del: array_length.simps)
next
  show "generate_units e (on_nbr_change PosInf s) st = Some (Inl RangeError)"
    by (simp add: generate_units_def on_nbr_change_def or_1_def)
next
  fix units st'
  assume a: "r \<noteq> 0 \<and> generate_units e (on_nbr_change (Fin r) s) st = Some (Inr (units, st'))"
  then have "s_nbr (on_nbr_change (Fin r) s) = Fin r"
    by (simp add: on_nbr_change_def or_1_other)
  with a show "length units = nat \<lfloor>r\<rfloor>" by (blast intro: generate_units_length)
qed

text \<open>
  The counts \<^verbatim>\<open>NaN\<close>, \<open>-3\<close>, \<open>5/2\<close> and \<open>2\<^sup>3\<^sup>2 + 1/2\<close> in \<^verbatim>\<open>Sentences\<close> mode: the run for
  \<open>5/2\<close> is the run for 2.
\<close>

theorem invalid_count_handling_witness:
  "on_nbr_change NaN (example_settings 5 Sentences) = on_nbr_change (Fin 1) (example_settings 5 Sentences)
   \<and> generate_units (example_env plain_store [] (\<lambda>i. 0))
        (on_nbr_change (Fin (- 3)) (example_settings 5 Sentences)) (cleared 0)
      = Some (Inr ([], cleared 0))
   \<and> generate_units (example_env plain_store [] (\<lambda>i. 0))
        (on_nbr_change (Fin (5 / 2)) (example_settings 5 Sentences)) (cleared 0)
      = generate_units (example_env plain_store [] (\<lambda>i. 0))
        (on_nbr_change (Fin 2) (example_settings 5 Sentences)) (cleared 0)
   \<and> generate_units (example_env plain_store [] (\<lambda>i. 0))
        (on_nbr_change (Fin (5 / 2)) (example_settings 5 Sentences)) (cleared 0)
      = Some (Inr ([''Howdy partner '', ''Howdy partner ''],
           \<lparr>usedWords = [], usedDictionary = {}, pos = 2\<rparr>))
   \<and> length [''Howdy partner '', ''Howdy partner ''] = nat \<lfloor>5 / 2 :: real\<rfloor>
   \<and> generate_units (example_env plain_store [] (\<lambda>i. 0))
        (on_nbr_change (Fin (2 ^ 32 + 1 / 2)) (example_settings 5 Sentences)) (cleared 0)
      = Some (Inl RangeError)"
proof -
  let ?e = "example_env plain_store [] (\<lambda>i. 0)"
  let ?s = "example_settings 5 Sentences"
  note T = invalid_count_handling[of NaN ?s "- 3" ?e "cleared 0"]
  from T have 1: "on_nbr_change NaN ?s = on_nbr_change (Fin 1) ?s" by blast
  have "(- 3 :: real) < 1 \<and> (- 3 :: real) \<noteq> 0" by simp
  with T have "generate_units ?e (on_nbr_change (Fin (- 3)) ?s) (cleared 0)
      = Some (Inr ([], (cleared 0)\<lparr>usedDictionary := {}, usedWords := []\<rparr>))" by blast
  then have 2: "generate_units ?e (on_nbr_change (Fin (- 3)) ?s) (cleared 0)
      = Some (Inr ([], cleared 0))" by (simp add: cleared_def)
  note U = invalid_count_handling[of NaN ?s "5 / 2" ?e "cleared 0"]
  have h: "(1 :: real) \<le> 5 / 2 \<and> (5 / 2 :: real) < 2 ^ 32" by simp
  have fl: "\<lfloor>5 / 2 :: real\<rfloor> = 2" by simp
  from U h have "generate_units ?e (on_nbr_change (Fin (5 / 2)) ?s) (cleared 0) =
           generate_units ?e (on_nbr_change (Fin (of_int \<lfloor>5 / 2 :: real\<rfloor>)) ?s) (cleared 0)" by blast
  then have 3: "generate_units ?e (on_nbr_change (Fin (5 / 2)) ?s) (cleared 0) =
           generate_units ?e (on_nbr_change (Fin 2) ?s) (cleared 0)"
    unfolding fl by simp
  from U h have "generate_units ?e (on_nbr_change (Fin (5 / 2)) ?s) (cleared 0) =
           Array_from (nat \<lfloor>5 / 2 :: real\<rfloor>) (getLoremIpsum ?e (s_type ?s))
             ((cleared 0)\<lparr>usedDictionary := {}, usedWords := []\<rparr>)" by blast
  also have "\<dots> = Some (Inr ([''Howdy partner '', ''Howdy partner ''],
           \<lparr>usedWords = [], usedDictionary = {}, pos = 2\<rparr>))"
    by (simp add: ev)
  finally have 4: "generate_units ?e (on_nbr_change (Fin (5 / 2)) ?s) (cleared 0)
      = Some (Inr ([''Howdy partner '', ''Howdy partner ''],
           \<lparr>usedWords = [], usedDictionary = {}, pos = 2\<rparr>))" .
  have nz: "(5 / 2 :: real) \<noteq> 0" by simp
  from U nz 4 have 5: "length [''Howdy partner '', ''Howdy partner ''] = nat \<lfloor>5 / 2 :: real\<rfloor>"
    by blast
  note V = invalid_count_handling[of NaN ?s "2 ^ 32 + 1 / 2" ?e "cleared 0"]
  have "(2 ^ 32 :: real) \<le> 2 ^ 32 + 1 / 2" by simp
  with V have 6: "generate_units ?e (on_nbr_change (Fin (2 ^ 32 + 1 / 2)) ?s) (cleared 0)
      = Some (Inl RangeError)" by blast
  from 1 2 3 4 5 6 show ?thesis by blast
qed

section \<open>C4: names that the store does not define\<close>

lemma process_tokens_append:
  "process_tokens e (pre @ toks) parts protagonist st = Some (Inr r) \<Longrightarrow>
     \<exists>parts' protagonist' st'.
        process_tokens e pre parts protagonist st = Some (Inr (parts', st'))
        \<and> process_tokens e toks parts' protagonist' st' = Some (Inr r)"
proof (induction pre arbitrary: parts protagonist st)
  case Nil
  then show ?case by auto
next
  case (Cons token pre)
  show ?case
  proof (cases "take 1 token = ''*'' \<and> fst (Math_random e st) \<ge> 1 / 6")
    case True
    then have eq: "\<And>ts. process_tokens e (token # ts) parts protagonist st
        = process_tokens e ts parts protagonist (snd (Math_random e st))"
      using process_tokens_skip[of token e st] by simp
    from Cons.prems have "process_tokens e (pre @ toks) parts protagonist (snd (Math_random e st)) = Some (Inr r)"
      using eq[of "pre @ toks"] by simp
    from Cons.IH[OF this] show ?thesis using eq[of pre] by simp
  next
    case skip: False
    show ?thesis
    proof (cases "take 1 token = ''?''")
      case True
      note eq = process_tokens_section[OF True, of e _ parts protagonist st]
      from Cons.prems have p: "process_tokens e (token # (pre @ toks)) parts protagonist st = Some (Inr r)"
        by simp
      from p[unfolded eq] obtain sec st1 where
        s: "getSection e (drop 1 token) protagonist st = Inr (sec, st1)"
        by (auto split: sum.splits)
      define prot' where "prot' = (if drop 1 token = ''protagonists''
             then \<lparr>pre_gender = p_gender sec, pre_number = p_number sec\<rparr>
             else protagonist)"
      from p[unfolded eq] s have "process_tokens e (pre @ toks) (parts @ [p_text sec]) prot' st1 = Some (Inr r)"
        by (simp add: prot'_def)
      from Cons.IH[OF this] show ?thesis
        unfolding eq using s by (simp add: prot'_def)
    next
      case False
      define tok where "tok = (if take 1 token = ''*'' then drop 1 token else token)"
      define st0 where "st0 = (if take 1 token = ''*'' then snd (Math_random e st) else st)"
      note eq = process_tokens_word[OF False skip tok_def st0_def, of _ parts protagonist]
      from Cons.prems have p: "process_tokens e (token # (pre @ toks)) parts protagonist st = Some (Inr r)"
        by simp
      from p[unfolded eq] obtain category where
        c: "getProp (Some (data e)) tok = Inr category"
        by (auto split: sum.splits)
      show ?thesis
      proof (cases "truthy category")
        case True
        with p[unfolded eq] c obtain w st1 where
          w: "getRandomWord e tok st0 = Some (Inr (w, st1))"
          by (auto split: option.splits sum.splits)
        with p[unfolded eq] c True have
          "process_tokens e (pre @ toks) (parts @ [w]) protagonist st1 = Some (Inr r)" by simp
        from Cons.IH[OF this] show ?thesis
          unfolding eq using c True w by simp
      next
        case False
        with p[unfolded eq] c have
          "process_tokens e (pre @ toks) (parts @ [Some tok]) protagonist st0 = Some (Inr r)" by simp
        from Cons.IH[OF this] show ?thesis
          unfolding eq using c False by simp
      qed
    qed
  qed
qed

lemma getSection_undefined:
  "getProp (Some (data e)) name = Inr None \<Longrightarrow> getSection e name pre st = Inl TypeError"
  by (simp add: getSection_def ebind_def)

lemma getPartial_undefined:
  "getProp (Some (data e)) ty = Inr None \<Longrightarrow> getPartial e ty pre st = Inl TypeError"
  by (simp add: getPartial_def ebind_def split: prod.splits)

lemma section_token_undefined:
  assumes "getProp (Some (data e)) name = Inr None"
  shows "process_tokens e ((CHR ''?'' # name) # rest) parts protagonist st = Some (Inl TypeError)"
proof -
  have t: "take 1 (CHR ''?'' # name) = ''?''" by simp
  show ?thesis
    unfolding process_tokens_section[OF t]
    using getSection_undefined[OF assms] by simp
qed

text \<open>
  Claim C4 as stated fails: the optional token \<^verbatim>\<open>*ghost\<close> names nothing in the store and
  is emitted as the word \<^verbatim>\<open>ghost\<close>.
\<close>

theorem undefined_optional_token_emitted:
  "generateSentence (example_env ghost_store [] (\<lambda>i. 0)) (cleared 0)
     = Some (Inr (''Ghost rides'', \<lparr>usedWords = [], usedDictionary = {}, pos = 2\<rparr>))"
  by (simp add: ev ghost_store_def)

lemma getProp_undefined_iff:
  "getProp (Some (JObj kvs)) name = Inr None \<longleftrightarrow>
     name \<notin> fst ` set kvs \<and> name \<notin> set inherited_methods \<and> name \<noteq> ''__proto__''"
proof (cases "map_of kvs name")
  case None
  then have "name \<notin> fst ` set kvs" by (simp add: map_of_eq_None_iff)
  with None show ?thesis by simp
next
  case (Some v)
  then have "(name, v) \<in> set kvs" by (rule map_of_SomeD)
  then have "name \<in> fst ` set kvs" by force
  with Some show ?thesis by simp
qed

text \<open>
  Claim C4, as amended.  A name is undefined in the store when it is not a key of the
  store and not the name of a method that every object inherits (\<^verbatim>\<open>constructor\<close>,
  \<^verbatim>\<open>toString\<close>, \<^verbatim>\<open>valueOf\<close>, ...); the name \<^verbatim>\<open>__proto__\<close> is left out.  For such a name: a
  section token \<^verbatim>\<open>?name\<close> fails with a \<^verbatim>\<open>TypeError\<close> at once, so a token list or a
  sentence structure that contains it never yields a text, and \<^verbatim>\<open>getSection\<close> and
  \<^verbatim>\<open>getPartial\<close> on the name fail with a \<^verbatim>\<open>TypeError\<close> (which covers the sub-types
  named in \<^verbatim>\<open>options\<close>).  A plain token with that name is a literal word and is
  emitted unchanged, and so is an optional token \<^verbatim>\<open>*name\<close> when it is included, without
  its marker.
\<close>

theorem undefined_references:
  "(data e = JObj kvs \<longrightarrow>
      (getProp (Some (data e)) name = Inr None \<longleftrightarrow>
         name \<notin> fst ` set kvs \<and> name \<notin> set inherited_methods \<and> name \<noteq> ''__proto__''))
   \<and> (getProp (Some (data e)) name = Inr None \<longrightarrow>
     process_tokens e ((CHR ''?'' # name) # rest) parts protagonist st = Some (Inl TypeError)
     \<and> (\<forall>r. process_tokens e (pre @ (CHR ''?'' # name) # rest) parts protagonist st \<noteq> Some (Inr r))
     \<and> (\<forall>toks st1 s. pick_structure e st = Inr (toks, st1) \<and> (CHR ''?'' # name) \<in> set toks
            \<longrightarrow> generateSentence e st \<noteq> Some (Inr s))
     \<and> getSection e name preset st = Inl TypeError
     \<and> getPartial e name preset st = Inl TypeError
     \<and> (take 1 name \<noteq> ''?'' \<and> take 1 name \<noteq> ''*'' \<longrightarrow>
           process_tokens e (name # rest) parts protagonist st
             = process_tokens e rest (parts @ [Some name]) protagonist st)
     \<and> (fst (Math_random e st) < 1 / 6 \<longrightarrow>
           process_tokens e ((CHR ''*'' # name) # rest) parts protagonist st
             = process_tokens e rest (parts @ [Some name]) protagonist (snd (Math_random e st))))"
proof (intro conjI)
  show "data e = JObj kvs \<longrightarrow>
      (getProp (Some (data e)) name = Inr None \<longleftrightarrow>
         name \<notin> fst ` set kvs \<and> name \<notin> set inherited_methods \<and> name \<noteq> ''__proto__'')"
  proof
    assume d: "data e = JObj kvs"
    show "getProp (Some (data e)) name = Inr None \<longleftrightarrow>
         name \<notin> fst ` set kvs \<and> name \<notin> set inherited_methods \<and> name \<noteq> ''__proto__''"
      unfolding d by (rule getProp_undefined_iff)
  qed
next
  show "getProp (Some (data e)) name = Inr None \<longrightarrow>
     process_tokens e ((CHR ''?'' # name) # rest) parts protagonist st = Some (Inl TypeError)
     \<and> (\<forall>r. process_tokens e (pre @ (CHR ''?'' # name) # rest) parts protagonist st \<noteq> Some (Inr r))
     \<and> (\<forall>toks st1 s. pick_structure e st = Inr (toks, st1) \<and> (CHR ''?'' # name) \<in> set toks
            \<longrightarrow> generateSentence e st \<noteq> Some (Inr s))
     \<and> getSection e name preset st = Inl TypeError
     \<and> getPartial e name preset st = Inl TypeError
     \<and> (take 1 name \<noteq> ''?'' \<and> take 1 name \<noteq> ''*'' \<longrightarrow>
           process_tokens e (name # rest) parts protagonist st
             = process_tokens e rest (parts @ [Some name]) protagonist st)
     \<and> (fst (Math_random e st) < 1 / 6 \<longrightarrow>
           process_tokens e ((CHR ''*'' # name) # rest) parts protagonist st
             = process_tokens e rest (parts @ [Some name]) protagonist (snd (Math_random e st)))"
  proof
    assume u: "getProp (Some (data e)) name = Inr None"
    note 1 = section_token_undefined[OF u, of rest parts protagonist st]
    have 2: "\<forall>r. process_tokens e (pre @ (CHR ''?'' # name) # rest) parts protagonist st \<noteq> Some (Inr r)"
    proof (intro allI notI)
      fix r
      assume "process_tokens e (pre @ (CHR ''?'' # name) # rest) parts protagonist st = Some (Inr r)"
      from process_tokens_append[OF this] obtain parts' protagonist' st' where
        "process_tokens e ((CHR ''?'' # name) # rest) parts' protagonist' st' = Some (Inr r)" by blast
      with section_token_undefined[OF u, of rest parts' protagonist' st'] show False by simp
    qed
    have 3: "\<forall>toks st1 s. pick_structure e st = Inr (toks, st1) \<and> (CHR ''?'' # name) \<in> set toks
              \<longrightarrow> generateSentence e st \<noteq> Some (Inr s)"
    proof (intro allI impI notI)
      fix toks st1 s
      assume a: "pick_structure e st = Inr (toks, st1) \<and> (CHR ''?'' # name) \<in> set toks"
        and g: "generateSentence e st = Some (Inr s)"
      from a obtain pre' rest' where toks: "toks = pre' @ (CHR ''?'' # name) # rest'"
        by (auto simp: in_set_conv_decomp)
      from g a obtain r where
        "process_tokens e toks [] \<lparr>pre_gender = Some [], pre_number = Some []\<rparr> st1 = Some (Inr r)"
        by (auto simp: generateSentence_def split: option.splits sum.splits)
      from process_tokens_append[OF this[unfolded toks]] obtain parts' protagonist' st' where
        "process_tokens e ((CHR ''?'' # name) # rest') parts' protagonist' st' = Some (Inr r)" by blast
      with section_token_undefined[OF u, of rest' parts' protagonist' st'] show False by simp
    qed
    have 6: "take 1 name \<noteq> ''?'' \<and> take 1 name \<noteq> ''*'' \<longrightarrow>
             process_tokens e (name # rest) parts protagonist st
               = process_tokens e rest (parts @ [Some name]) protagonist st"
    proof
      assume a: "take 1 name \<noteq> ''?'' \<and> take 1 name \<noteq> ''*''"
      then have "process_tokens e (name # rest) parts protagonist st =
       (case getProp (Some (data e)) name of
          Inl err \<Rightarrow> Some (Inl err)
        | Inr category \<Rightarrow>
            if truthy category
            then (case getRandomWord e name st of
                    None \<Rightarrow> None
                  | Some (Inl err) \<Rightarrow> Some (Inl err)
                  | Some (Inr (w, st1)) \<Rightarrow> process_tokens e rest (parts @ [w]) protagonist st1)
            else process_tokens e rest (parts @ [Some name]) protagonist st)"
        by (intro process_tokens_word) simp_all
      with u show "process_tokens e (name # rest) parts protagonist st
               = process_tokens e rest (parts @ [Some name]) protagonist st" by simp
    qed
    have 7: "fst (Math_random e st) < 1 / 6 \<longrightarrow>
             process_tokens e ((CHR ''*'' # name) # rest) parts protagonist st
               = process_tokens e rest (parts @ [Some name]) protagonist (snd (Math_random e st))"
    proof
      assume a: "fst (Math_random e st) < 1 / 6"
      have "process_tokens e ((CHR ''*'' # name) # rest) parts protagonist st =
       (case getProp (Some (data e)) name of
          Inl err \<Rightarrow> Some (Inl err)
        | Inr category \<Rightarrow>
            if truthy category
            then (case getRandomWord e name (snd (Math_random e st)) of
                    None \<Rightarrow> None
                  | Some (Inl err) \<Rightarrow> Some (Inl err)
                  | Some (Inr (w, st1)) \<Rightarrow> process_tokens e rest (parts @ [w]) protagonist st1)
            else process_tokens e rest (parts @ [Some name]) protagonist (snd (Math_random e st)))"
        using a by (intro process_tokens_word) simp_all
      with u show "process_tokens e ((CHR ''*'' # name) # rest) parts protagonist st
               = process_tokens e rest (parts @ [Some name]) protagonist (snd (Math_random e st))"
        by simp
    qed
    from 1 2 3 6 7 getSection_undefined[OF u] getPartial_undefined[OF u]
    show "process_tokens e ((CHR ''?'' # name) # rest) parts protagonist st = Some (Inl TypeError)
       \<and> (\<forall>r. process_tokens e (pre @ (CHR ''?'' # name) # rest) parts protagonist st \<noteq> Some (Inr r))
       \<and> (\<forall>toks st1 s. pick_structure e st = Inr (toks, st1) \<and> (CHR ''?'' # name) \<in> set toks
              \<longrightarrow> generateSentence e st \<noteq> Some (Inr s))
       \<and> getSection e name preset st = Inl TypeError
       \<and> getPartial e name preset st = Inl TypeError
       \<and> (take 1 name \<noteq> ''?'' \<and> take 1 name \<noteq> ''*'' \<longrightarrow>
             process_tokens e (name # rest) parts protagonist st
               = process_tokens e rest (parts @ [Some name]) protagonist st)
       \<and> (fst (Math_random e st) < 1 / 6 \<longrightarrow>
             process_tokens e ((CHR ''*'' # name) # rest) parts protagonist st
               = process_tokens e rest (parts @ [Some name]) protagonist (snd (Math_random e st)))"
      by blast
  qed
qed

text \<open>
  The name \<^verbatim>\<open>ghost\<close> in the store that does not define it; the name \<^verbatim>\<open>constructor\<close>,
  which no store leaves undefined.
\<close>

theorem undefined_references_witness:
  "data (example_env ghost_store [] (\<lambda>i. 0)) = JObj [(''structures'', JArr [JArr [JStr ''*ghost'', JStr ''rides'']])]
   \<and> getProp (Some (data (example_env ghost_store [] (\<lambda>i. 0)))) ''ghost'' = Inr None
   \<and> getProp (Some (data (example_env ghost_store [] (\<lambda>i. 0)))) ''constructor'' \<noteq> Inr None
   \<and> process_tokens (example_env ghost_store [] (\<lambda>i. 0)) [''?ghost'', ''rides''] []
        \<lparr>pre_gender = Some [], pre_number = Some []\<rparr> (cleared 1) = Some (Inl TypeError)
   \<and> getSection (example_env ghost_store [] (\<lambda>i. 0)) ''ghost''
        \<lparr>pre_gender = Some [], pre_number = Some []\<rparr> (cleared 1) = Inl TypeError
   \<and> fst (Math_random (example_env ghost_store [] (\<lambda>i. 0)) (cleared 1)) < 1 / 6
   \<and> process_tokens (example_env ghost_store [] (\<lambda>i. 0)) [''*ghost'', ''rides''] []
        \<lparr>pre_gender = Some [], pre_number = Some []\<rparr> (cleared 1)
      = process_tokens (example_env ghost_store [] (\<lambda>i. 0)) [''rides''] [Some ''ghost'']
        \<lparr>pre_gender = Some [], pre_number = Some []\<rparr>
        (snd (Math_random (example_env ghost_store [] (\<lambda>i. 0)) (cleared 1)))"
proof -
  let ?e = "example_env ghost_store [] (\<lambda>i. 0)"
  let ?p = "\<lparr>pre_gender = Some [], pre_number = Some []\<rparr>"
  let ?kvs = "[(''structures'', JArr [JArr [JStr ''*ghost'', JStr ''rides'']])]"
  have d: "data ?e = JObj ?kvs" by (simp add: ghost_store_def)
  note C1 = undefined_references[where e = ?e and kvs = ?kvs and name = "''ghost''",
      THEN conjunct1, THEN mp, OF d]
  note C2 = undefined_references[where e = ?e and kvs = ?kvs and name = "''constructor''",
      THEN conjunct1, THEN mp, OF d]
  have "''ghost'' \<notin> fst ` set ?kvs \<and> ''ghost'' \<notin> set inherited_methods \<and> ''ghost'' \<noteq> ''__proto__''"
    by (simp add: inherited_methods_def)
  with C1 have u: "getProp (Some (data ?e)) ''ghost'' = Inr None" by blast
  have "''constructor'' \<in> set inherited_methods" by (simp add: inherited_methods_def)
  with C2 have c: "getProp (Some (data ?e)) ''constructor'' \<noteq> Inr None"
    by blast
  have r: "fst (Math_random ?e (cleared 1)) < 1 / 6"
    by (simp add: Math_random_def)
  note T = undefined_references[where e = ?e and name = "''ghost''" and rest = "[''rides'']"
      and parts = "[]" and protagonist = ?p and st = "cleared 1" and pre = "[]" and preset = ?p,
      THEN conjunct2, THEN mp, OF u]
  from T r have
    "process_tokens ?e ((CHR ''?'' # ''ghost'') # [''rides'']) [] ?p (cleared 1) = Some (Inl TypeError)"
    "getSection ?e ''ghost'' ?p (cleared 1) = Inl TypeError"
    "process_tokens ?e ((CHR ''*'' # ''ghost'') # [''rides'']) [] ?p (cleared 1)
      = process_tokens ?e [''rides''] ([] @ [Some ''ghost'']) ?p (snd (Math_random ?e (cleared 1)))"
    by blast+
  with d u c r show ?thesis by simp
qed

section \<open>C5: gender and number of a partial\<close>

text \<open>
  What \<^verbatim>\<open>getPartial\<close> picks: a gender that the preset gives is taken as it is, the
  empty string included, and only an absent one is tossed for; likewise the number.
\<close>

lemma pick_gender_empty_string:
  "pick_gender e \<lparr>pre_gender = Some [], pre_number = n\<rparr> st = ([], st)"
  by (simp add: pick_gender_def)

lemma pick_gender_absent:
  "pick_gender e \<lparr>pre_gender = None, pre_number = n\<rparr> st =
     (if random e (pos st) > 1 / 2 then ''m'' else ''f'', st\<lparr>pos := Suc (pos st)\<rparr>)"
  by (simp add: pick_gender_def Math_random_def)

lemma pick_number_present:
  "pick_number e \<lparr>pre_gender = g, pre_number = Some n\<rparr> numbers st = (Some n, st)"
  by (simp add: pick_number_def)

lemma pick_number_absent:
  "pick_number e \<lparr>pre_gender = g, pre_number = None\<rparr> numbers st =
     (nth_opt numbers (floor_index (random e (pos st)) (length numbers)), st\<lparr>pos := Suc (pos st)\<rparr>)"
  by (simp add: pick_number_def randomFromArray_eq)

lemmas ev_sections = getSection_def getPartial_def pick_gender_def pick_number_def
  getRandomNoRepeat_def filter_Boolean_def hero_store_def

text \<open>
  The index \<^verbatim>\<open>Math.floor(Math.random() * n)\<close> is \<open>i\<close> exactly for the random numbers of
  the interval \<open>[i/n, (i+1)/n)\<close>: every index has an interval of the same length.
\<close>

lemma floor_index_interval:
  assumes "0 \<le> u" and "0 < n"
  shows "floor_index u n = i \<longleftrightarrow> real i / real n \<le> u \<and> u < real (Suc i) / real n"
proof -
  have n: "0 < real n" using assms(2) by simp
  have nn: "0 \<le> u * real n" using assms by simp
  have "floor_index u n = i \<longleftrightarrow> \<lfloor>u * real n\<rfloor> = int i"
    using nn by (auto simp: floor_index_def)
  also have "\<dots> \<longleftrightarrow> real i \<le> u * real n \<and> u * real n < real i + 1"
    by (simp add: floor_eq_iff)
  also have "\<dots> \<longleftrightarrow> real i / real n \<le> u \<and> u < real (Suc i) / real n"
    using n by (simp add: pos_divide_le_eq pos_less_divide_eq add.commute)
  finally show ?thesis .
qed

text \<open>
  Claim C5 fails on the code for the first section token of a sentence.
  \<^verbatim>\<open>generateSentence\<close> starts every sentence with the protagonist
  \<^verbatim>\<open>{ gender: "", number: "" }\<close> and hands it to \<^verbatim>\<open>getSection\<close> as the preset; the empty
  strings are not nullish, so no gender is tossed and no number is drawn, the section
  type is indexed by the empty string and \<^verbatim>\<open>Object.keys(undefined)\<close> throws.  With a
  preset whose keys are absent the same section resolves, by the toss and the draw.
\<close>

theorem first_section_token_fails:
  "generateSentence (example_env hero_store [] (\<lambda>i. 0)) (cleared 0) = Some (Inl TypeError)
   \<and> getSection (example_env hero_store [] (\<lambda>i. 0)) ''protagonists''
        \<lparr>pre_gender = Some [], pre_number = Some []\<rparr> (cleared 1) = Inl TypeError
   \<and> getSection (example_env hero_store [] (\<lambda>i. 0)) ''protagonists''
        \<lparr>pre_gender = None, pre_number = None\<rparr> (cleared 1)
      = Inr (\<lparr>p_type = ''protagonists'', p_text = Some ''cowgirl'', p_gender = Some ''f'',
               p_number = Some ''singular''\<rparr>,
             \<lparr>usedWords = [], usedDictionary = {''cowgirl''}, pos = 5\<rparr>)"
  by (simp add: ev ev_sections)

section \<open>C9: the summary line\<close>

lemma split_ws_acc_count:
  "(\<forall>cur. cur \<noteq> [] \<longrightarrow>
      length (split_ws_acc cur False str) =
        length (ws_tokens_acc cur str) + (if str \<noteq> [] \<and> is_ws (last str) then 1 else 0))
   \<and> length (split_ws_acc [] True str) =
        length (ws_tokens_acc [] str) + (if str = [] \<or> is_ws (last str) then 1 else 0)"
proof (induction str)
  case Nil
  show ?case by simp
next
  case (Cons c cs)
  show ?case
  proof (cases "is_ws c")
    case True
    with Cons show ?thesis by auto
  next
    case False
    with Cons show ?thesis by auto
  qed
qed

text \<open>
  The number of pieces of \<^verbatim>\<open>text.split(/\s+/)\<close> is the number of white-space tokens, plus
  one when the text starts with white space, plus one when it ends with white space;
  the empty text has one piece and no token.
\<close>

lemma split_ws_count:
  "length (split_ws str) =
     length (whitespace_tokens str)
     + (if str = [] then 1
        else (if is_ws (hd str) then 1 else 0) + (if is_ws (last str) then 1 else 0))"
proof (cases str)
  case Nil
  then show ?thesis by (simp add: split_ws_def whitespace_tokens_def)
next
  case (Cons c cs)
  show ?thesis
  proof (cases "is_ws c")
    case True
    with Cons split_ws_acc_count[of cs] show ?thesis
      by (auto simp: split_ws_def whitespace_tokens_def)
  next
    case False
    with Cons split_ws_acc_count[of cs] show ?thesis
      by (auto simp: split_ws_def whitespace_tokens_def)
  qed
qed

lemma is_ws_space [simp]: "is_ws CHR '' ''"
  by (simp add: is_ws_def)

text \<open>In \<^verbatim>\<open>Sentences\<close> mode every unit, and so the text of a run, ends with a space.\<close>

lemma resume_words_trailing_space:
  assumes "s_type s \<noteq> Words"
  shows "resume_words s (str @ '' '') =
     '', '' @ decimal (length (whitespace_tokens (str @ '' ''))
                      + (if is_ws (hd (str @ '' '')) then 2 else 1)) @ '' mots''"
  using assms by (simp add: resume_words_def split_ws_count)


lemmas ev_resume = run_setup_def fixLigatures_def updateResume_def resume_translation_def
  resume_words_def resume_chars_def split_ws_def is_ws_def is_AZaz_def whitespace_tokens_def

text \<open>
  Claim C9 fails on the code in \<^verbatim>\<open>Sentences\<close> mode.  The run for one sentence has the
  text \<^verbatim>\<open>Howdy partner \<close>, of two white-space tokens; the summary line says
  \<^verbatim>\<open>3 mots\<close>, since \<^verbatim>\<open>split\<close> returns an empty third piece after the trailing space.
  The character count is that of the letters \<^verbatim>\<open>A-Z\<close> and \<^verbatim>\<open>a-z\<close> only: of the four
  letters of \<^verbatim>\<open>caf\<close> followed by e acute (code unit 233) it counts three.
\<close>

theorem sentence_mode_word_count:
  "run_setup (example_env plain_store [] (\<lambda>i. 0)) (example_settings 1 Sentences) (cleared 0)
     = Some (Inr ((''<p><strong>1 phrases, 3 mots, 12 caract'' @ [CHR 0xE8] @ ''res de ''
                    @ [CHR 0x0A] @ ''      <a href='' @ [CHR 0x22]
                    @ ''http://sidlipsum.smnarnold.com'' @ [CHR 0x22]
                    @ ''>Lee<em>psum</em></a> g'' @ [CHR 0xE9] @ ''n'' @ [CHR 0xE9] @ ''r''
                    @ [CHR 0xE9] @ ''</strong></p>'',
                  ''<article class='' @ [CHR 0x22] @ ''article'' @ [CHR 0x22]
                    @ ''>Howdy partner </article>''),
                 \<lparr>usedWords = [], usedDictionary = {}, pos = 1\<rparr>))
   \<and> split_ws ''Howdy partner '' = [''Howdy'', ''partner'', []]
   \<and> whitespace_tokens ''Howdy partner '' = [''Howdy'', ''partner'']
   \<and> length (filter is_AZaz (''caf'' @ [CHR 0xE9])) = 3"
  by (simp add: ev ev_resume)

end
